theory Spec2Isabelle
  imports
    Main
    "HOL-Library.AList"
    "HOL-Library.Char_ord"
    "HOL-Library.List_Lexorder"
    "HOL-Library.Product_Lexorder"
begin

section \<open>The tournament records (app.py, the models)\<close>

text \<open>
  The four tables of the store. Identifiers, round numbers, table numbers and finish
  positions are Python/SQL integers (\<open>int\<close>); a nullable column is an \<open>option\<close>. The
  relationship \<open>Game.results\<close> is the list of the results of a game. The columns the
  standings never read (\<open>banned_card\<close>, \<open>created_at\<close>, the row ids of games, rounds and
  results) are left out. \<open>Game.sweep\<close> is read only through its truth value
  (\<open>if sweep\<close>, \<open>bool(g.sweep)\<close>), so it is a \<open>bool\<close>.
  \<open>Player.id\<close> is \<open>p_id\<close> and \<open>Player.name\<close> is \<open>p_name\<close>.
\<close>

record player =
  p_id :: int
  p_name :: string
  active :: bool

record round_info =
  number :: int
  bye_player_id :: "int option"

record game_result =
  player_id :: int
  position :: "int option"

record game =
  round_number :: int
  table_no :: int
  sweep :: bool
  save_player_id :: "int option"
  results :: "game_result list"

record store =
  players :: "player list"
  rounds :: "round_info list"
  games :: "game list"

section \<open>The scoring rule\<close>

fun points_for_position :: "int option \<Rightarrow> bool \<Rightarrow> int" where
  "points_for_position None sw = 0"
| "points_for_position (Some p) sw =
     (if sw then (if p = 1 then 3 else 0)
      else if p = 1 then 3
      else if p = 2 then 2
      else if p = 3 then 1
      else 0)"

section \<open>The standings (app.py, index)\<close>

text \<open>What the Python can raise in \<open>index\<close>: a missing dictionary key, a list index out of range.\<close>

datatype error = KeyError int | IndexError

text \<open>The two labels, the strings \<open>"CLASIFICADO"\<close> and \<open>"ELIMINADO"\<close>; no label is \<open>None\<close>.\<close>

datatype verdict = CLASIFICADO | ELIMINADO

text \<open>
  The rows of the dictionaries \<open>totals\<close> and \<open>per_player\<close>, and of the list \<open>table\<close>
  (before and after the loop that writes \<open>pos\<close>). The rows of \<open>participation\<close> carry
  the prefix \<open>part_\<close>; in \<open>table\<close>, the keys \<open>id\<close> and \<open>status\<close> are \<open>row_id\<close> and
  \<open>row_status\<close>.
\<close>

record totals_row =
  name :: string
  points :: int
  wins :: int
  seconds :: int
  thirds :: int
  saves :: int

record per_player_row = totals_row +
  played :: int
  rests :: int
  planned_to_play :: int
  remaining :: int
  lb :: int
  ub :: int
  status :: "verdict option"

record table_row = totals_row +
  row_id :: int
  row_status :: "verdict option"

record ranked_row = table_row +
  pos :: int

record participation_row =
  part_name :: string
  part_played :: int
  part_remaining :: int
  part_rests :: int
  part_planned_to_play :: int

record template_context =
  table :: "ranked_row list"
  participation :: "participation_row list"
  total_rounds :: int

text \<open>
  The accumulators of the first half of \<open>index\<close>: the dictionary \<open>totals\<close> (a missing key
  raises), the two \<open>defaultdict\<close>s (a missing key reads as the empty set, as 0) and the
  set \<open>all_rounds\<close>.
\<close>

record acc =
  totals :: "int \<rightharpoonup> totals_row"
  played_rounds :: "int \<Rightarrow> int set"
  rests_by_player :: "int \<Rightarrow> int"
  all_rounds :: "int set"

text \<open>A loop whose body can raise: the first error ends it.\<close>

fun for_each :: "('a \<Rightarrow> 's \<Rightarrow> error + 's) \<Rightarrow> 'a list \<Rightarrow> 's \<Rightarrow> error + 's" where
  "for_each body [] s = Inr s"
| "for_each body (x # xs) s =
     (case body x s of Inl e \<Rightarrow> Inl e | Inr s' \<Rightarrow> for_each body xs s')"

text \<open>\<open>Player.query.filter_by(active=True).order_by(Player.name.asc()).all()\<close>\<close>

definition active_players :: "store \<Rightarrow> player list" where
  "active_players st = sort_key p_name (filter active (players st))"

text \<open>The dictionary comprehension that starts \<open>totals\<close>: a later player with the same id wins.\<close>

definition init_totals :: "player list \<Rightarrow> (int \<rightharpoonup> totals_row)" where
  "init_totals ps =
     fold (\<lambda>p m. m(p_id p \<mapsto>
             \<lparr>name = p_name p, points = 0, wins = 0, seconds = 0, thirds = 0, saves = 0\<rparr>))
          ps Map.empty"

text \<open>
  The loop over \<open>RoundInfo\<close>. \<open>if ri.bye_player_id\<close> is Python truth: neither \<open>None\<close>
  nor 0.
\<close>

definition round_step :: "round_info \<Rightarrow> acc \<Rightarrow> acc" where
  "round_step ri a =
     (let a1 = a\<lparr>all_rounds := insert (number ri) (all_rounds a)\<rparr>
      in case bye_player_id ri of
           None \<Rightarrow> a1
         | Some b \<Rightarrow>
             if b \<noteq> 0
             then a1\<lparr>rests_by_player := (rests_by_player a1)(b := rests_by_player a1 b + 1)\<rparr>
             else a1)"

text \<open>\<open>if g.save_player_id and g.save_player_id in totals\<close>: one point and one save.\<close>

definition apply_save :: "game \<Rightarrow> (int \<rightharpoonup> totals_row) \<Rightarrow> (int \<rightharpoonup> totals_row)" where
  "apply_save g tot =
     (case save_player_id g of
        None \<Rightarrow> tot
      | Some s \<Rightarrow>
          if s \<noteq> 0
          then (case tot s of
                  None \<Rightarrow> tot
                | Some t \<Rightarrow> tot(s \<mapsto> t\<lparr>points := points t + 1, saves := saves t + 1\<rparr>))
          else tot)"

text \<open>\<open>any(r.position == 1 for r in g.results) or bool(g.sweep)\<close>\<close>

definition has_winner :: "game \<Rightarrow> bool" where
  "has_winner g = (list_ex (\<lambda>r. position r = Some 1) (results g) \<or> sweep g)"

text \<open>The body of \<open>for r in g.results\<close>; \<open>totals[r.player_id]\<close> raises on a missing key.\<close>

definition result_step :: "game \<Rightarrow> bool \<Rightarrow> game_result \<Rightarrow> acc \<Rightarrow> error + acc" where
  "result_step g hw r a =
     (case totals a (player_id r) of
        None \<Rightarrow> Inl (KeyError (player_id r))
      | Some t \<Rightarrow>
          let pts = points_for_position (position r) (sweep g);
              t1 = t\<lparr>points := points t + pts\<rparr>;
              t2 = (if position r = Some 1 then t1\<lparr>wins := wins t1 + 1\<rparr>
                    else if position r = Some 2 then t1\<lparr>seconds := seconds t1 + 1\<rparr>
                    else if position r = Some 3 then t1\<lparr>thirds := thirds t1 + 1\<rparr>
                    else t1);
              a1 = a\<lparr>totals := (totals a)(player_id r \<mapsto> t2)\<rparr>
          in Inr (if hw
                  then a1\<lparr>played_rounds := (played_rounds a1)
                            (player_id r := insert (round_number g) (played_rounds a1 (player_id r)))\<rparr>
                  else a1))"

text \<open>The body of \<open>for g in games\<close>.\<close>

definition game_step :: "game \<Rightarrow> acc \<Rightarrow> error + acc" where
  "game_step g a =
     (let a1 = a\<lparr>all_rounds := insert (round_number g) (all_rounds a)\<rparr>;
          a2 = a1\<lparr>totals := apply_save g (totals a1)\<rparr>
      in for_each (result_step g (has_winner g)) (results g) a2)"

text \<open>\<open>Game.query.order_by(Game.round_number.asc(), Game.table_no.asc()).all()\<close>\<close>

definition ordered_games :: "store \<Rightarrow> game list" where
  "ordered_games st = sort_key (\<lambda>g. (round_number g, table_no g)) (games st)"

definition accumulate :: "store \<Rightarrow> error + acc" where
  "accumulate st =
     (let a0 = \<lparr>totals = init_totals (active_players st),
                played_rounds = (\<lambda>_. {}),
                rests_by_player = (\<lambda>_. 0),
                all_rounds = {}\<rparr>;
          a1 = fold round_step (rounds st) a0
      in for_each game_step (ordered_games st) a1)"

text \<open>
  The body of \<open>for p in players\<close> that fills \<open>per_player\<close>, a dictionary whose key order
  is read later: an association list, \<open>d[k] = v\<close> being \<open>AList.update\<close> (in place for a
  key that is there, at the end for a new one). The key \<open>status\<close> is written by the next
  loop; until then it reads as \<open>None\<close>.
\<close>

type_synonym per_player_dict = "(int \<times> per_player_row) list"

definition per_player_step :: "acc \<Rightarrow> int \<Rightarrow> player \<Rightarrow> per_player_dict \<Rightarrow> error + per_player_dict" where
  "per_player_step a total_rounds' p per_player =
     (case totals a (p_id p) of
        None \<Rightarrow> Inl (KeyError (p_id p))
      | Some t \<Rightarrow>
          let played' = int (card (played_rounds a (p_id p)));
              rests' = rests_by_player a (p_id p);
              planned_to_play' = max (total_rounds' - rests') 0;
              remaining' = max (planned_to_play' - played') 0;
              lb' = points t;
              ub' = lb' + 4 * remaining'
          in Inr (AList.update (p_id p)
                    \<lparr>name = p_name p, points = points t, wins = wins t, seconds = seconds t,
                     thirds = thirds t, saves = saves t,
                     played = played', rests = rests', planned_to_play = planned_to_play',
                     remaining = remaining', lb = lb', ub = ub', status = None\<rparr>
                    per_player))"

definition build_per_player :: "store \<Rightarrow> acc \<Rightarrow> error + per_player_dict" where
  "build_per_player st a =
     for_each (per_player_step a (int (card (all_rounds a)))) (active_players st) []"

text \<open>\<open>[per_player[q] for q in qs]\<close>\<close>

fun lookup_all :: "per_player_dict \<Rightarrow> int list \<Rightarrow> error + per_player_row list" where
  "lookup_all d [] = Inr []"
| "lookup_all d (q # qs) =
     (case map_of d q of
        None \<Rightarrow> Inl (KeyError q)
      | Some row \<Rightarrow>
          (case lookup_all d qs of Inl e \<Rightarrow> Inl e | Inr rows \<Rightarrow> Inr (row # rows)))"

text \<open>\<open>sorted(xs, reverse=True)\<close> on integers, and \<open>xs[3]\<close>.\<close>

definition sorted_desc :: "int list \<Rightarrow> int list" where
  "sorted_desc xs = rev (sort xs)"

definition index3 :: "int list \<Rightarrow> error + int" where
  "index3 xs = (if 3 < length xs then Inr (xs ! 3) else Inl IndexError)"

text \<open>The body of \<open>for pid in ids\<close>, the labels.\<close>

definition verdict_step :: "int list \<Rightarrow> int \<Rightarrow> per_player_dict \<Rightarrow> error + per_player_dict" where
  "verdict_step ids pid per_player =
     (case map_of per_player pid of
        None \<Rightarrow> Inl (KeyError pid)
      | Some me \<Rightarrow>
          (case lookup_all per_player (filter (\<lambda>q. q \<noteq> pid) ids) of
             Inl e \<Rightarrow> Inl e
           | Inr rivals \<Rightarrow>
               let rival_LBs = sorted_desc (map lb rivals);
                   rival_UBs = sorted_desc (map ub rivals)
               in (case index3 rival_LBs of
                     Inl e \<Rightarrow> Inl e
                   | Inr fourth_best_rival_LB \<Rightarrow>
                       (case index3 rival_UBs of
                          Inl e \<Rightarrow> Inl e
                        | Inr fourth_best_rival_UB \<Rightarrow>
                            let status' =
                                  (if lb me > fourth_best_rival_UB then Some CLASIFICADO
                                   else if ub me < fourth_best_rival_LB then Some ELIMINADO
                                   else None)
                            in Inr (AList.update pid (me\<lparr>status := status'\<rparr>) per_player)))))"

definition label_verdicts :: "per_player_dict \<Rightarrow> error + per_player_dict" where
  "label_verdicts per_player =
     (let ids = map fst per_player in for_each (verdict_step ids) ids per_player)"

text \<open>
  The table: one row for each item of \<open>per_player\<close>, sorted by name, then by the medal
  key with \<open>reverse=True\<close>. Python's sort is stable, and with \<open>reverse=True\<close> it keeps
  the order of equal keys: it sorts the reversed list and reverses the result.
\<close>

definition medal_key :: "'a totals_row_scheme \<Rightarrow> int \<times> int \<times> int \<times> int" where
  "medal_key x = (points x, wins x, seconds x, thirds x)"

definition sort_key_reverse :: "('a \<Rightarrow> 'k::linorder) \<Rightarrow> 'a list \<Rightarrow> 'a list" where
  "sort_key_reverse f xs = rev (sort_key f (rev xs))"

definition table_rows :: "per_player_dict \<Rightarrow> table_row list" where
  "table_rows per_player =
     map (\<lambda>(pid, row).
            \<lparr>name = name row, points = points row, wins = wins row, seconds = seconds row,
             thirds = thirds row, saves = saves row, row_id = pid, row_status = status row\<rparr>)
         per_player"

definition sorted_table :: "per_player_dict \<Rightarrow> table_row list" where
  "sorted_table per_player = sort_key_reverse medal_key (sort_key name (table_rows per_player))"

text \<open>
  \<open>for i, t in enumerate(table, start=1)\<close>: \<open>last_key\<close> starts as \<open>None\<close>, which no key
  equals.
\<close>

fun rank_loop ::
  "int \<Rightarrow> (int \<times> int \<times> int \<times> int) option \<Rightarrow> int \<Rightarrow> table_row list \<Rightarrow> ranked_row list" where
  "rank_loop i last_key current_pos [] = []"
| "rank_loop i last_key current_pos (t # ts) =
     (let key = medal_key t;
          current_pos' = (if Some key \<noteq> last_key then i else current_pos);
          last_key' = (if Some key \<noteq> last_key then Some key else last_key)
      in table_row.extend t \<lparr>pos = current_pos'\<rparr> # rank_loop (i + 1) last_key' current_pos' ts)"

definition ranked_table :: "per_player_dict \<Rightarrow> ranked_row list" where
  "ranked_table per_player = rank_loop 1 None 0 (sorted_table per_player)"

definition participation_rows :: "per_player_dict \<Rightarrow> error + participation_row list" where
  "participation_rows per_player =
     (case lookup_all per_player (map fst per_player) of
        Inl e \<Rightarrow> Inl e
      | Inr rows \<Rightarrow>
          Inr (sort_key part_name
                 (map (\<lambda>r. \<lparr>part_name = name r, part_played = played r,
                            part_remaining = remaining r, part_rests = rests r,
                            part_planned_to_play = planned_to_play r\<rparr>) rows)))"

text \<open>The dictionary \<open>per_player\<close> when the labels are written, and the whole of \<open>index\<close>.\<close>

definition index_per_player :: "store \<Rightarrow> error + per_player_dict" where
  "index_per_player st =
     (case accumulate st of
        Inl e \<Rightarrow> Inl e
      | Inr a \<Rightarrow>
          (case build_per_player st a of
             Inl e \<Rightarrow> Inl e
           | Inr per_player \<Rightarrow> label_verdicts per_player))"

definition index :: "store \<Rightarrow> error + template_context" where
  "index st =
     (case accumulate st of
        Inl e \<Rightarrow> Inl e
      | Inr a \<Rightarrow>
          (case build_per_player st a of
             Inl e \<Rightarrow> Inl e
           | Inr per_player0 \<Rightarrow>
               (case label_verdicts per_player0 of
                  Inl e \<Rightarrow> Inl e
                | Inr per_player \<Rightarrow>
                    (case participation_rows per_player of
                       Inl e \<Rightarrow> Inl e
                     | Inr part \<Rightarrow>
                         Inr \<lparr>table = ranked_table per_player,
                              participation = part,
                              total_rounds = int (card (all_rounds a))\<rparr>))))"

section \<open>Vocabulary of the properties\<close>

text \<open>
  What the statements below say about a store, written from the store alone: the ids of
  the active players, whether every stored result belongs to an active player, the
  rounds a player is credited with, the round numbers, the byes of a player, and the
  save bonus and the score of a player at one table.
\<close>

definition active_ids :: "store \<Rightarrow> int set" where
  "active_ids st = p_id ` set (filter active (players st))"

definition results_active :: "store \<Rightarrow> bool" where
  "results_active st =
     list_all (\<lambda>g. list_all (\<lambda>r. player_id r \<in> active_ids st) (results g)) (games st)"

definition credited_rounds :: "store \<Rightarrow> int \<Rightarrow> int set" where
  "credited_rounds st k =
     round_number `
       set (filter (\<lambda>g. has_winner g \<and> k \<in> player_id ` set (results g)) (games st))"

definition round_numbers :: "store \<Rightarrow> int set" where
  "round_numbers st = number ` set (rounds st) \<union> round_number ` set (games st)"

definition byes_of :: "store \<Rightarrow> int \<Rightarrow> int" where
  "byes_of st k = int (length (filter (\<lambda>ri. bye_player_id ri = Some k) (rounds st)))"

definition save_bonus :: "game \<Rightarrow> int \<Rightarrow> int" where
  "save_bonus g k = (if save_player_id g = Some k \<and> k \<noteq> 0 then 1 else 0)"

definition score_in :: "game \<Rightarrow> int \<Rightarrow> int" where
  "score_in g k =
     sum_list (map (\<lambda>r. points_for_position (position r) (sweep g))
                   (filter (\<lambda>r. player_id r = k) (results g)))"

text \<open>
  The verdict in the words of the specification: the rivals of \<open>k\<close> are the other
  entries, the fourth highest of a list is index 3 of the list sorted descending.
\<close>

definition rivals :: "per_player_dict \<Rightarrow> int \<Rightarrow> per_player_row list" where
  "rivals pp k = map snd (filter (\<lambda>(q, _). q \<noteq> k) pp)"

definition fourth_highest :: "int list \<Rightarrow> int" where
  "fourth_highest xs = rev (sort xs) ! 3"

definition spec_verdict :: "per_player_dict \<Rightarrow> int \<Rightarrow> per_player_row \<Rightarrow> verdict option" where
  "spec_verdict pp k me =
     (if lb me > fourth_highest (map ub (rivals pp k)) then Some CLASIFICADO
      else if ub me < fourth_highest (map lb (rivals pp k)) then Some ELIMINADO
      else None)"

text \<open>Two tools of the proofs: a dictionary with its labels rewritten, and what a row of
  \<open>per_player\<close> holds when it is built from the accumulators.\<close>

definition relabel ::
  "(int \<Rightarrow> per_player_row \<Rightarrow> verdict option) \<Rightarrow> per_player_dict \<Rightarrow> per_player_dict" where
  "relabel f pp = map (\<lambda>(q, r). (q, r\<lparr>status := f q r\<rparr>)) pp"

definition row_of :: "acc \<Rightarrow> int \<Rightarrow> int \<Rightarrow> per_player_row \<Rightarrow> bool" where
  "row_of a tr k row =
     (played row = int (card (played_rounds a k))
      \<and> rests row = rests_by_player a k
      \<and> planned_to_play row = max (tr - rests row) 0
      \<and> remaining row = max (planned_to_play row - played row) 0
      \<and> lb row = points row
      \<and> ub row = lb row + 4 * remaining row
      \<and> status row = None
      \<and> (\<exists>t. totals a k = Some t \<and> points row = points t \<and> wins row = wins t
             \<and> seconds row = seconds t \<and> thirds row = thirds t \<and> saves row = saves t))"

section \<open>Three stores\<close>

text \<open>
  \<open>st_finished\<close>: five active players and one inactive (Omar), two rounds with one table
  each, all played; the first table names the inactive player as its save.
  \<open>st_four\<close>: the nine seeded players, five of them deactivated, and no round or table
  (the state after a tournament reset).
  \<open>st_deactivated\<close>: \<open>st_finished\<close> with one more table, which the inactive player won
  before being deactivated.
\<close>

definition st_finished :: store where
  "st_finished =
     \<lparr>players =
        [\<lparr>p_id = 1, p_name = ''Negro'', active = True\<rparr>,
         \<lparr>p_id = 2, p_name = ''Gueta'', active = True\<rparr>,
         \<lparr>p_id = 3, p_name = ''Teran'', active = True\<rparr>,
         \<lparr>p_id = 4, p_name = ''Borux'', active = True\<rparr>,
         \<lparr>p_id = 5, p_name = ''Mauro'', active = True\<rparr>,
         \<lparr>p_id = 6, p_name = ''Omar'', active = False\<rparr>],
      rounds =
        [\<lparr>number = 1, bye_player_id = Some 5\<rparr>,
         \<lparr>number = 2, bye_player_id = Some 4\<rparr>],
      games =
        [\<lparr>round_number = 2, table_no = 1, sweep = False, save_player_id = Some 2,
          results = [\<lparr>player_id = 1, position = Some 1\<rparr>,
                     \<lparr>player_id = 2, position = Some 2\<rparr>,
                     \<lparr>player_id = 5, position = Some 3\<rparr>,
                     \<lparr>player_id = 3, position = None\<rparr>]\<rparr>,
         \<lparr>round_number = 1, table_no = 1, sweep = False, save_player_id = Some 6,
          results = [\<lparr>player_id = 1, position = Some 1\<rparr>,
                     \<lparr>player_id = 2, position = Some 2\<rparr>,
                     \<lparr>player_id = 3, position = Some 3\<rparr>,
                     \<lparr>player_id = 4, position = None\<rparr>]\<rparr>]\<rparr>"

definition st_four :: store where
  "st_four =
     \<lparr>players =
        [\<lparr>p_id = 1, p_name = ''Borux'', active = True\<rparr>,
         \<lparr>p_id = 2, p_name = ''Negro'', active = True\<rparr>,
         \<lparr>p_id = 3, p_name = ''Gueta'', active = True\<rparr>,
         \<lparr>p_id = 4, p_name = ''Teran'', active = True\<rparr>,
         \<lparr>p_id = 5, p_name = ''Mauro'', active = False\<rparr>,
         \<lparr>p_id = 6, p_name = ''Gordor'', active = False\<rparr>,
         \<lparr>p_id = 7, p_name = ''Xephi'', active = False\<rparr>,
         \<lparr>p_id = 8, p_name = ''Omar'', active = False\<rparr>,
         \<lparr>p_id = 9, p_name = ''Richard'', active = False\<rparr>],
      rounds = [],
      games = []\<rparr>"

definition st_deactivated :: store where
  "st_deactivated =
     st_finished\<lparr>games :=
        games st_finished @
        [\<lparr>round_number = 3, table_no = 1, sweep = True, save_player_id = None,
          results = [\<lparr>player_id = 6, position = Some 1\<rparr>,
                     \<lparr>player_id = 1, position = None\<rparr>]\<rparr>]\<rparr>"

section \<open>Lemmas about the loops\<close>

lemma for_each_invariant:
  assumes "for_each body xs s = Inr s'" and "P s"
    and "\<And>x t t'. x \<in> set xs \<Longrightarrow> P t \<Longrightarrow> body x t = Inr t' \<Longrightarrow> P t'"
  shows "P s'"
  using assms
proof (induction xs arbitrary: s)
  case Nil
  then show ?case by simp
next
  case (Cons x xs)
  from Cons.prems(1) obtain s1 where b: "body x s = Inr s1" and r: "for_each body xs s1 = Inr s'"
    by (auto split: sum.splits)
  have "P s1" using Cons.prems(3) [of x s s1] Cons.prems(2) b by simp
  then show ?case using Cons.IH [OF r] Cons.prems(3) by (meson list.set_intros(2))
qed

subsection \<open>The loop over the rounds\<close>

lemma fold_round_step_totals: "totals (fold round_step rs a) = totals a"
  by (induction rs arbitrary: a) (simp_all add: round_step_def Let_def split: option.splits)

lemma fold_round_step_played: "played_rounds (fold round_step rs a) = played_rounds a"
  by (induction rs arbitrary: a) (simp_all add: round_step_def Let_def split: option.splits)

lemma fold_round_step_all_rounds:
  "all_rounds (fold round_step rs a) = all_rounds a \<union> number ` set rs"
  by (induction rs arbitrary: a) (auto simp: round_step_def Let_def split: option.splits)

lemma fold_round_step_rests:
  "rests_by_player (fold round_step rs a) k =
     rests_by_player a k
     + (if k = 0 then 0 else int (length (filter (\<lambda>ri. bye_player_id ri = Some k) rs)))"
  by (induction rs arbitrary: a) (auto simp: round_step_def Let_def split: option.splits)

subsection \<open>The loop over the results of a game\<close>

lemma result_step_Inr:
  assumes "result_step g hw r a = Inr a'"
  shows "player_id r \<in> dom (totals a)"
    and "dom (totals a') = dom (totals a)"
    and "rests_by_player a' = rests_by_player a"
    and "all_rounds a' = all_rounds a"
    and "played_rounds a' k =
           (if hw \<and> k = player_id r then insert (round_number g) (played_rounds a k)
            else played_rounds a k)"
  using assms
  by (auto simp: result_step_def Let_def split: option.splits if_splits)

lemma result_step_Inl:
  "result_step g hw r a = Inl e \<Longrightarrow> player_id r \<notin> dom (totals a) \<and> e = KeyError (player_id r)"
  by (auto simp: result_step_def Let_def split: option.splits if_splits)

lemma results_loop_Inr:
  assumes "for_each (result_step g hw) rs a = Inr a'"
  shows "player_id ` set rs \<subseteq> dom (totals a)
       \<and> dom (totals a') = dom (totals a)
       \<and> rests_by_player a' = rests_by_player a
       \<and> all_rounds a' = all_rounds a
       \<and> (\<forall>k. played_rounds a' k =
               (if hw \<and> k \<in> player_id ` set rs then insert (round_number g) (played_rounds a k)
                else played_rounds a k))"
  using assms
proof (induction rs arbitrary: a)
  case Nil
  then show ?case by simp
next
  case (Cons r rs)
  from Cons.prems obtain a1 where s: "result_step g hw r a = Inr a1"
    and l: "for_each (result_step g hw) rs a1 = Inr a'"
    by (auto split: sum.splits)
  note h = result_step_Inr [OF s]
  from Cons.IH [OF l] h show ?case by auto
qed

lemma results_loop_Inl:
  assumes "for_each (result_step g hw) rs a = Inl e"
  shows "\<exists>r \<in> set rs. player_id r \<notin> dom (totals a) \<and> e = KeyError (player_id r)"
  using assms
proof (induction rs arbitrary: a)
  case Nil
  then show ?case by simp
next
  case (Cons r rs)
  show ?case
  proof (cases "result_step g hw r a")
    case (Inl e')
    with Cons.prems result_step_Inl [OF Inl] show ?thesis by auto
  next
    case (Inr a1)
    with Cons.prems have l: "for_each (result_step g hw) rs a1 = Inl e" by simp
    from Cons.IH [OF l] result_step_Inr(2) [OF Inr] show ?thesis by auto
  qed
qed

subsection \<open>The loop over the games\<close>

lemma dom_apply_save: "dom (apply_save g tot) = dom tot"
  by (auto simp: apply_save_def split: option.splits if_splits)

lemma game_step_Inr:
  assumes "game_step g a = Inr a'"
  shows "player_id ` set (results g) \<subseteq> dom (totals a)
       \<and> dom (totals a') = dom (totals a)
       \<and> rests_by_player a' = rests_by_player a
       \<and> all_rounds a' = insert (round_number g) (all_rounds a)
       \<and> (\<forall>k. played_rounds a' k =
               (if has_winner g \<and> k \<in> player_id ` set (results g)
                then insert (round_number g) (played_rounds a k)
                else played_rounds a k))"
  using results_loop_Inr [OF assms [unfolded game_step_def Let_def]]
  by (simp add: dom_apply_save)

lemma game_step_Inl:
  assumes "game_step g a = Inl e"
  shows "\<exists>r \<in> set (results g). player_id r \<notin> dom (totals a) \<and> e = KeyError (player_id r)"
  using results_loop_Inl [OF assms [unfolded game_step_def Let_def]]
  by (simp add: dom_apply_save)

lemma games_loop_Inr:
  assumes "for_each game_step gs a = Inr a'"
  shows "(\<forall>g \<in> set gs. player_id ` set (results g) \<subseteq> dom (totals a))
       \<and> dom (totals a') = dom (totals a)
       \<and> rests_by_player a' = rests_by_player a
       \<and> all_rounds a' = all_rounds a \<union> round_number ` set gs
       \<and> (\<forall>k. played_rounds a' k =
               played_rounds a k \<union>
               {round_number g |g. g \<in> set gs \<and> has_winner g \<and> k \<in> player_id ` set (results g)})"
  using assms
proof (induction gs arbitrary: a)
  case Nil
  then show ?case by simp
next
  case (Cons g gs)
  from Cons.prems obtain a1 where s: "game_step g a = Inr a1"
    and l: "for_each game_step gs a1 = Inr a'"
    by (auto split: sum.splits)
  note h = game_step_Inr [OF s]
  note ih = Cons.IH [OF l]
  have p: "\<forall>k. played_rounds a' k =
               played_rounds a k \<union>
               {round_number g' |g'. g' \<in> set (g # gs) \<and> has_winner g' \<and> k \<in> player_id ` set (results g')}"
  proof
    fix k
    have "played_rounds a' k = played_rounds a1 k \<union>
               {round_number g' |g'. g' \<in> set gs \<and> has_winner g' \<and> k \<in> player_id ` set (results g')}"
      using ih by blast
    moreover have "played_rounds a1 k = (if has_winner g \<and> k \<in> player_id ` set (results g)
                then insert (round_number g) (played_rounds a k)
                else played_rounds a k)" using h by blast
    ultimately show "played_rounds a' k =
               played_rounds a k \<union>
               {round_number g' |g'. g' \<in> set (g # gs) \<and> has_winner g' \<and> k \<in> player_id ` set (results g')}"
      by auto
  qed
  from ih h have "(\<forall>g' \<in> set (g # gs). player_id ` set (results g') \<subseteq> dom (totals a))
       \<and> dom (totals a') = dom (totals a)
       \<and> rests_by_player a' = rests_by_player a
       \<and> all_rounds a' = all_rounds a \<union> round_number ` set (g # gs)"
    by auto
  with p show ?case by blast
qed

lemma games_loop_Inl:
  assumes "for_each game_step gs a = Inl e"
  shows "\<exists>g \<in> set gs. \<exists>r \<in> set (results g). player_id r \<notin> dom (totals a) \<and> e = KeyError (player_id r)"
  using assms
proof (induction gs arbitrary: a)
  case Nil
  then show ?case by simp
next
  case (Cons g gs)
  show ?case
  proof (cases "game_step g a")
    case (Inl e')
    with Cons.prems game_step_Inl [OF Inl] show ?thesis by auto
  next
    case (Inr a1)
    with Cons.prems have l: "for_each game_step gs a1 = Inl e" by simp
    from Cons.IH [OF l] game_step_Inr [OF Inr] show ?thesis by auto
  qed
qed

subsection \<open>The accumulators of a store\<close>

lemma dom_init_totals_aux:
  "dom (fold (\<lambda>p m. m(p_id p \<mapsto>
             \<lparr>name = p_name p, points = 0, wins = 0, seconds = 0, thirds = 0, saves = 0\<rparr>))
          ps m0) = dom m0 \<union> p_id ` set ps"
  by (induction ps arbitrary: m0) auto

lemma dom_init_totals: "dom (init_totals ps) = p_id ` set ps"
  by (simp add: init_totals_def dom_init_totals_aux)

lemma set_active_players: "set (active_players st) = {p \<in> set (players st). active p}"
  by (auto simp: active_players_def)

lemma accumulate_Inr:
  assumes "accumulate st = Inr a"
  shows "dom (totals a) = active_ids st"
    and "\<forall>g \<in> set (games st). player_id ` set (results g) \<subseteq> active_ids st"
    and "all_rounds a = number ` set (rounds st) \<union> round_number ` set (games st)"
    and "rests_by_player a k =
           (if k = 0 then 0 else int (length (filter (\<lambda>ri. bye_player_id ri = Some k) (rounds st))))"
    and "played_rounds a k =
           {round_number g |g. g \<in> set (games st) \<and> has_winner g \<and> k \<in> player_id ` set (results g)}"
proof -
  let ?a0 = "\<lparr>totals = init_totals (active_players st), played_rounds = (\<lambda>_. {}),
              rests_by_player = (\<lambda>_. 0), all_rounds = {}\<rparr>"
  let ?a1 = "fold round_step (rounds st) ?a0"
  have l: "for_each game_step (ordered_games st) ?a1 = Inr a"
    using assms by (simp add: accumulate_def Let_def)
  have d: "dom (totals ?a1) = active_ids st"
    by (simp add: fold_round_step_totals dom_init_totals set_active_players active_ids_def)
  have s: "set (ordered_games st) = set (games st)"
    by (simp add: ordered_games_def)
  note h = games_loop_Inr [OF l]
  show "dom (totals a) = active_ids st" using h d by simp
  show "\<forall>g \<in> set (games st). player_id ` set (results g) \<subseteq> active_ids st"
    using h d s by simp
  show "all_rounds a = number ` set (rounds st) \<union> round_number ` set (games st)"
    using h s by (simp add: fold_round_step_all_rounds)
  show "rests_by_player a k =
           (if k = 0 then 0 else int (length (filter (\<lambda>ri. bye_player_id ri = Some k) (rounds st))))"
    using h by (simp add: fold_round_step_rests)
  show "played_rounds a k =
           {round_number g |g. g \<in> set (games st) \<and> has_winner g \<and> k \<in> player_id ` set (results g)}"
    using h s by (simp add: fold_round_step_played)
qed

lemma accumulate_Inl:
  assumes "accumulate st = Inl e"
  shows "\<exists>g \<in> set (games st). \<exists>r \<in> set (results g).
           player_id r \<notin> active_ids st \<and> e = KeyError (player_id r)"
proof -
  let ?a0 = "\<lparr>totals = init_totals (active_players st), played_rounds = (\<lambda>_. {}),
              rests_by_player = (\<lambda>_. 0), all_rounds = {}\<rparr>"
  let ?a1 = "fold round_step (rounds st) ?a0"
  have l: "for_each game_step (ordered_games st) ?a1 = Inl e"
    using assms by (simp add: accumulate_def Let_def)
  have d: "dom (totals ?a1) = active_ids st"
    by (simp add: fold_round_step_totals dom_init_totals set_active_players active_ids_def)
  have s: "set (ordered_games st) = set (games st)"
    by (simp add: ordered_games_def)
  from games_loop_Inl [OF l] d s show ?thesis by simp
qed

subsection \<open>The dictionary per_player\<close>

lemma set_update_subset: "set (AList.update k v al) \<subseteq> insert (k, v) (set al)"
  by (induction al) auto

lemma per_player_step_Inr:
  assumes "per_player_step a tr p pp = Inr pp'"
  shows "\<exists>row. pp' = AList.update (p_id p) row pp \<and> row_of a tr (p_id p) row"
  using assms
  by (auto simp: per_player_step_def row_of_def Let_def split: option.splits)

lemma per_player_step_Inl:
  "per_player_step a tr p pp = Inl e \<Longrightarrow> p_id p \<notin> dom (totals a)"
  by (auto simp: per_player_step_def Let_def split: option.splits)

lemma per_player_loop_Inr:
  assumes "for_each (per_player_step a tr) ps pp = Inr pp'"
  shows "fst ` set pp' = fst ` set pp \<union> p_id ` set ps
       \<and> (distinct (map fst pp) \<longrightarrow> distinct (map fst pp'))
       \<and> ((\<forall>(k, row) \<in> set pp. row_of a tr k row) \<longrightarrow> (\<forall>(k, row) \<in> set pp'. row_of a tr k row))"
  using assms
proof (induction ps arbitrary: pp)
  case Nil
  then show ?case by simp
next
  case (Cons p ps)
  from Cons.prems obtain pp1 where s: "per_player_step a tr p pp = Inr pp1"
    and l: "for_each (per_player_step a tr) ps pp1 = Inr pp'"
    by (auto split: sum.splits)
  from per_player_step_Inr [OF s] obtain row
    where u: "pp1 = AList.update (p_id p) row pp" and r: "row_of a tr (p_id p) row"
    by blast
  have 1: "fst ` set pp1 = insert (p_id p) (fst ` set pp)"
    using u by (simp add: AList.dom_update)
  have 2: "distinct (map fst pp) \<longrightarrow> distinct (map fst pp1)"
    using u by (simp add: AList.distinct_update)
  have 3: "(\<forall>(k, row) \<in> set pp. row_of a tr k row) \<longrightarrow> (\<forall>(k, row) \<in> set pp1. row_of a tr k row)"
    using u r set_update_subset [of "p_id p" row pp] by auto
  note ih = Cons.IH [OF l]
  have "fst ` set pp' = fst ` set pp \<union> p_id ` set (p # ps)"
    using ih 1 by auto
  moreover have "distinct (map fst pp) \<longrightarrow> distinct (map fst pp')"
    using ih 2 by blast
  moreover have "(\<forall>(k, row) \<in> set pp. row_of a tr k row)
       \<longrightarrow> (\<forall>(k, row) \<in> set pp'. row_of a tr k row)"
    using ih 3 by blast
  ultimately show ?case by blast
qed

lemma per_player_loop_success:
  assumes "p_id ` set ps \<subseteq> dom (totals a)"
  shows "\<exists>pp'. for_each (per_player_step a tr) ps pp = Inr pp'"
  using assms
proof (induction ps arbitrary: pp)
  case Nil
  then show ?case by simp
next
  case (Cons p ps)
  then obtain t where "totals a (p_id p) = Some t" by auto
  then obtain pp1 where s: "per_player_step a tr p pp = Inr pp1"
    by (simp add: per_player_step_def Let_def)
  from Cons.IH [of pp1] Cons.prems obtain pp' where "for_each (per_player_step a tr) ps pp1 = Inr pp'"
    by auto
  with s show ?case by simp
qed

lemma build_per_player_Inr:
  assumes "build_per_player st a = Inr pp"
  shows "fst ` set pp = active_ids st"
    and "distinct (map fst pp)"
    and "\<forall>(k, row) \<in> set pp. row_of a (int (card (all_rounds a))) k row"
  using per_player_loop_Inr [OF assms [unfolded build_per_player_def]]
  by (simp_all add: set_active_players active_ids_def)

lemma build_per_player_success:
  assumes "dom (totals a) = active_ids st"
  shows "\<exists>pp. build_per_player st a = Inr pp"
  unfolding build_per_player_def
  by (rule per_player_loop_success) (simp add: assms set_active_players active_ids_def)

subsection \<open>The labels\<close>

lemma lookup_all_keys:
  assumes "\<forall>(q, v) \<in> set d'. map_of d q = Some v"
  shows "lookup_all d (filter P (map fst d')) = Inr (map snd (filter (\<lambda>(q, _). P q) d'))"
  using assms by (induction d') auto

lemma lookup_all_rivals:
  assumes "distinct (map fst pp)"
  shows "lookup_all pp (filter (\<lambda>q. q \<noteq> k) (map fst pp)) = Inr (rivals pp k)"
  unfolding rivals_def
  by (rule lookup_all_keys) (use assms in auto)

lemma length_rivals:
  assumes "distinct (map fst pp)" and "k \<in> fst ` set pp"
  shows "length (rivals pp k) = length pp - 1"
proof -
  have "{q. q = k} \<inter> set (map fst pp) = {k}"
    using assms(2) by auto
  then have "length (filter (\<lambda>q. q = k) (map fst pp)) = 1"
    using distinct_length_filter [OF assms(1), of "\<lambda>q. q = k"] by simp
  moreover have "length (filter (\<lambda>q. q = k) (map fst pp)) + length (filter (\<lambda>q. q \<noteq> k) (map fst pp))
      = length (map fst pp)"
    using sum_length_filter_compl [of "\<lambda>q. q = k" "map fst pp"] by simp
  moreover have "length (rivals pp k) = length (filter (\<lambda>q. q \<noteq> k) (map fst pp))"
    by (simp add: rivals_def filter_map comp_def case_prod_unfold)
  ultimately show ?thesis by simp
qed

lemma rivals_relabel: "map lb (rivals (relabel f pp) k) = map lb (rivals pp k)"
  "map ub (rivals (relabel f pp) k) = map ub (rivals pp k)"
  by (induction pp) (auto simp: rivals_def relabel_def)

lemma spec_verdict_relabel:
  "spec_verdict (relabel f pp) k (me\<lparr>status := s\<rparr>) = spec_verdict pp k me"
  by (simp add: spec_verdict_def rivals_relabel)

lemma map_fst_relabel: "map fst (relabel f pp) = map fst pp"
  by (induction pp) (auto simp: relabel_def)

lemma map_of_relabel:
  "map_of (relabel f pp) k = map_option (\<lambda>r. r\<lparr>status := f k r\<rparr>) (map_of pp k)"
  by (induction pp) (auto simp: relabel_def)

lemma update_relabel:
  assumes "distinct (map fst pp)" and "map_of pp k = Some me"
  shows "AList.update k (me\<lparr>status := s\<rparr>) (relabel f pp)
         = relabel (\<lambda>q r. if q = k then s else f q r) pp"
  using assms
proof (induction pp)
  case Nil
  then show ?case by simp
next
  case (Cons x pp)
  show ?case
  proof (cases "fst x = k")
    case True
    with Cons.prems have m: "snd x = me" and n: "k \<notin> fst ` set pp" by auto
    have "relabel (\<lambda>q r. if q = k then s else f q r) pp = relabel f pp"
      unfolding relabel_def by (rule map_cong) (use n in force)+
    with True m show ?thesis by (cases x) (simp add: relabel_def)
  next
    case False
    with Cons show ?thesis by (cases x) (simp add: relabel_def)
  qed
qed

lemma index3_sorted_desc:
  "index3 (sorted_desc xs) = (if 3 < length xs then Inr (fourth_highest xs) else Inl IndexError)"
  by (simp add: index3_def sorted_desc_def fourth_highest_def)

lemma verdict_step_relabel:
  assumes d: "distinct (map fst pp)" and m: "map_of pp k = Some me"
  shows "verdict_step (map fst pp) k (relabel f pp) =
           (if 4 < length pp
            then Inr (relabel (\<lambda>q r. if q = k then spec_verdict pp q r else f q r) pp)
            else Inl IndexError)"
proof -
  let ?pp = "relabel f pp"
  have d': "distinct (map fst ?pp)" using d by (simp add: map_fst_relabel)
  have k: "k \<in> fst ` set pp" using m by (metis map_of_eq_None_iff option.distinct(1))
  have l: "lookup_all ?pp (filter (\<lambda>q. q \<noteq> k) (map fst pp)) = Inr (rivals ?pp k)"
    using lookup_all_rivals [OF d', of k] by (simp add: map_fst_relabel)
  have n: "length (rivals pp k) = length pp - 1" by (rule length_rivals [OF d k])
  have e: "\<And>q r. (q, r) \<in> set pp \<Longrightarrow> q = k \<Longrightarrow> r = me"
    using d m by simp
  have r: "relabel (\<lambda>q r. if q = k then spec_verdict pp k me else f q r) pp
         = relabel (\<lambda>q r. if q = k then spec_verdict pp q r else f q r) pp"
    unfolding relabel_def by (rule map_cong) (use e in auto)
  show ?thesis
  proof (cases "4 < length pp")
    case True
    then have "3 < length (rivals pp k)" using n by simp
    then have "verdict_step (map fst pp) k ?pp
        = Inr (AList.update k (me\<lparr>status := spec_verdict pp k me\<rparr>) ?pp)"
      using m l
      by (simp add: verdict_step_def map_of_relabel index3_sorted_desc rivals_relabel
            spec_verdict_def Let_def)
    then show ?thesis
      using True update_relabel [OF d m, of _ f] r by simp
  next
    case False
    then have "\<not> 3 < length (rivals pp k)" using n k by (cases pp) auto
    then show ?thesis
      using False m l
      by (simp add: verdict_step_def map_of_relabel index3_sorted_desc rivals_relabel Let_def)
  qed
qed

lemma verdict_loop_relabel:
  assumes "distinct (map fst pp)" and "4 < length pp" and "set ks \<subseteq> fst ` set pp"
  shows "for_each (verdict_step (map fst pp)) ks (relabel f pp)
         = Inr (relabel (\<lambda>q r. if q \<in> set ks then spec_verdict pp q r else f q r) pp)"
  using assms(3)
proof (induction ks arbitrary: f)
  case Nil
  then show ?case by simp
next
  case (Cons k ks)
  then obtain me where m: "map_of pp k = Some me"
    by (metis (no_types, lifting) list.set_intros(1) map_of_eq_None_iff not_None_eq subsetD)
  have "relabel (\<lambda>q r. if q \<in> set ks then spec_verdict pp q r
                        else if q = k then spec_verdict pp q r else f q r) pp
      = relabel (\<lambda>q r. if q \<in> set (k # ks) then spec_verdict pp q r else f q r) pp"
    unfolding relabel_def by (rule map_cong) auto
  then show ?case
    using Cons verdict_step_relabel [OF assms(1) m, of f] assms(2) by simp
qed

lemma relabel_status: "relabel (\<lambda>q r. status r) pp = pp"
  by (induction pp) (auto simp: relabel_def)

lemma label_verdicts_Inr:
  assumes "distinct (map fst pp)" and "4 < length pp"
  shows "label_verdicts pp = Inr (relabel (spec_verdict pp) pp)"
proof -
  have "relabel (\<lambda>q r. if q \<in> set (map fst pp) then spec_verdict pp q r else status r) pp
      = relabel (spec_verdict pp) pp"
    unfolding relabel_def by (rule map_cong) force+
  then show ?thesis
    using verdict_loop_relabel [OF assms, of "map fst pp" "\<lambda>q r. status r"]
    by (simp add: label_verdicts_def relabel_status)
qed

lemma label_verdicts_Inl:
  assumes "distinct (map fst pp)" and "pp \<noteq> []" and "length pp \<le> 4"
  shows "label_verdicts pp = Inl IndexError"
proof -
  obtain k me rest where p: "pp = (k, me) # rest" using assms(2) by (cases pp) auto
  then have m: "map_of pp k = Some me" by simp
  have "verdict_step (map fst pp) k pp = Inl IndexError"
    using verdict_step_relabel [OF assms(1) m, of "\<lambda>q r. status r"] assms(3)
    by (simp add: relabel_status)
  then show ?thesis by (simp add: label_verdicts_def p)
qed

lemma label_verdicts_Nil: "label_verdicts [] = Inr []"
  by (simp add: label_verdicts_def)

subsection \<open>The ranking loop\<close>

lemma rank_loop_Cons:
  "rank_loop i l c (t # ts) =
     table_row.extend t \<lparr>pos = (if Some (medal_key t) \<noteq> l then i else c)\<rparr>
     # rank_loop (i + 1) (Some (medal_key t)) (if Some (medal_key t) \<noteq> l then i else c) ts"
  by (auto simp: Let_def)

lemma extend_fields:
  "name (table_row.extend t m) = name t"
  "points (table_row.extend t m) = points t"
  "wins (table_row.extend t m) = wins t"
  "seconds (table_row.extend t m) = seconds t"
  "thirds (table_row.extend t m) = thirds t"
  "saves (table_row.extend t m) = saves t"
  "row_id (table_row.extend t m) = row_id t"
  "row_status (table_row.extend t m) = row_status t"
  "pos (table_row.extend t \<lparr>pos = n\<rparr>) = n"
  by (simp_all add: table_row.defs)

lemma rank_loop_length: "length (rank_loop i l c ts) = length ts"
  by (induction ts arbitrary: i l c) (simp_all add: rank_loop_Cons del: rank_loop.simps(2))

lemma rank_loop_fields:
  "map name (rank_loop i l c ts) = map name ts"
  "map medal_key (rank_loop i l c ts) = map medal_key ts"
  "map row_id (rank_loop i l c ts) = map row_id ts"
  "map row_status (rank_loop i l c ts) = map row_status ts"
  "map saves (rank_loop i l c ts) = map saves ts"
  by (induction ts arbitrary: i l c)
     (simp_all add: rank_loop_Cons extend_fields medal_key_def del: rank_loop.simps(2))

lemma rank_loop_pos:
  assumes "sorted_wrt (\<lambda>x y. medal_key y \<le> medal_key x) ts"
    and "\<And>k0 t. l = Some k0 \<Longrightarrow> t \<in> set ts \<Longrightarrow> medal_key t \<le> k0"
    and "j < length ts"
  shows "pos (rank_loop i l c ts ! j) =
           (if Some (medal_key (ts ! j)) = l then c
            else i + int (length (filter (\<lambda>x. medal_key (ts ! j) < medal_key x) ts)))"
  using assms
proof (induction ts arbitrary: i l c j)
  case Nil
  then show ?case by simp
next
  case (Cons t ts)
  let ?key = "medal_key t"
  let ?c' = "if Some ?key \<noteq> l then i else c"
  from Cons.prems(1) have le: "\<forall>y \<in> set ts. medal_key y \<le> ?key"
    and srt: "sorted_wrt (\<lambda>x y. medal_key y \<le> medal_key x) ts"
    by simp_all
  have none_above: "filter (\<lambda>x. ?key < medal_key x) (t # ts) = []"
    using le by (auto simp: filter_empty_conv)
  show ?case
  proof (cases j)
    case 0
    then show ?thesis
      using none_above by (simp add: rank_loop_Cons extend_fields del: rank_loop.simps(2))
  next
    case (Suc j')
    then have j': "j' < length ts" using Cons.prems(3) by simp
    let ?kj = "medal_key (ts ! j')"
    have kj: "?kj \<le> ?key" using le j' by simp
    have ih: "pos (rank_loop (i + 1) (Some ?key) ?c' ts ! j') =
           (if Some ?kj = Some ?key then ?c'
            else i + 1 + int (length (filter (\<lambda>x. ?kj < medal_key x) ts)))"
      by (rule Cons.IH [OF srt _ j']) (use le in auto)
    have nth: "rank_loop i l c (t # ts) ! j = rank_loop (i + 1) (Some ?key) ?c' ts ! j'"
      using Suc by (simp add: rank_loop_Cons del: rank_loop.simps(2))
    show ?thesis
    proof (cases "?kj = ?key")
      case True
      then show ?thesis
        using ih nth none_above Suc by simp
    next
      case False
      then have lt: "?kj < ?key" using kj by simp
      have "Some ?kj \<noteq> l"
      proof
        assume "Some ?kj = l"
        then have "?key \<le> ?kj" using Cons.prems(2) [of ?kj t] by simp
        with lt show False by simp
      qed
      then show ?thesis
        using ih nth False lt Suc by simp
    qed
  qed
qed

lemma rank_loop_group_start:
  assumes "j < length ts"
    and "if j = 0 then Some (medal_key (ts ! 0)) \<noteq> l
         else medal_key (ts ! (j - 1)) \<noteq> medal_key (ts ! j)"
  shows "pos (rank_loop i l c ts ! j) = i + int j"
  using assms
proof (induction ts arbitrary: i l c j)
  case Nil
  then show ?case by simp
next
  case (Cons t ts)
  show ?case
  proof (cases j)
    case 0
    then show ?thesis
      using Cons.prems by (simp add: rank_loop_Cons extend_fields del: rank_loop.simps(2))
  next
    case (Suc j')
    then have j': "j' < length ts" using Cons.prems(1) by simp
    have c: "if j' = 0 then Some (medal_key (ts ! 0)) \<noteq> Some (medal_key t)
             else medal_key (ts ! (j' - 1)) \<noteq> medal_key (ts ! j')"
      using Cons.prems(2) Suc by (cases j') auto
    show ?thesis
      using Cons.IH [OF j' c] Suc by (simp add: rank_loop_Cons del: rank_loop.simps(2))
  qed
qed

subsection \<open>The two sorts of the table\<close>

lemma sort_key_reverse_desc:
  "sorted_wrt (\<lambda>x y. f y \<le> f x) (sort_key_reverse f xs)"
proof -
  have "sorted (map f (sort_key f (rev xs)))" by simp
  then have "sorted_wrt (\<lambda>x y. f x \<le> f y) (sort_key f (rev xs))"
    by (simp add: sorted_wrt_map)
  then show ?thesis
    by (simp add: sort_key_reverse_def sorted_wrt_rev)
qed

lemma sort_key_reverse_stable:
  "filter (\<lambda>y. f y = k) (sort_key_reverse f xs) = filter (\<lambda>y. f y = k) xs"
  by (simp add: sort_key_reverse_def rev_filter [symmetric] sort_key_stable)

lemma set_sort_key_reverse: "set (sort_key_reverse f xs) = set xs"
  by (simp add: sort_key_reverse_def)

lemma length_sort_key_reverse: "length (sort_key_reverse f xs) = length xs"
  by (simp add: sort_key_reverse_def)

lemma distinct_map_sort_key:
  "distinct (map h (sort_key f xs)) = distinct (map h xs)"
  by (simp add: distinct_map)

lemma distinct_map_sort_key_reverse:
  "distinct (map h (sort_key_reverse f xs)) = distinct (map h xs)"
  by (simp add: sort_key_reverse_def distinct_map)

lemma sorted_filter_nth:
  assumes "sorted (map g (filter P xs))" and "i < j" and "j < length xs"
    and "P (xs ! i)" and "P (xs ! j)"
  shows "g (xs ! i) \<le> g (xs ! j)"
proof -
  have "sorted_wrt (\<lambda>x y. g x \<le> g y) (filter P xs) \<Longrightarrow>
        sorted_wrt (\<lambda>x y. P x \<longrightarrow> P y \<longrightarrow> g x \<le> g y) xs"
    by (induction xs) (auto split: if_splits)
  then have "sorted_wrt (\<lambda>x y. P x \<longrightarrow> P y \<longrightarrow> g x \<le> g y) xs"
    using assms(1) by (simp add: sorted_wrt_map)
  then show ?thesis
    using assms(2-5) by (simp add: sorted_wrt_iff_nth_less)
qed

lemma sorted_table_order:
  assumes "i < j" and "j < length (sorted_table pp)"
  shows "medal_key (sorted_table pp ! j) < medal_key (sorted_table pp ! i)
       \<or> (medal_key (sorted_table pp ! j) = medal_key (sorted_table pp ! i)
          \<and> name (sorted_table pp ! i) \<le> name (sorted_table pp ! j))"
proof -
  let ?ys = "sort_key name (table_rows pp)"
  let ?T = "sorted_table pp"
  have d: "sorted_wrt (\<lambda>x y. medal_key y \<le> medal_key x) ?T"
    unfolding sorted_table_def by (rule sort_key_reverse_desc)
  then have le: "medal_key (?T ! j) \<le> medal_key (?T ! i)"
    using assms by (simp add: sorted_wrt_iff_nth_less)
  show ?thesis
  proof (cases "medal_key (?T ! j) = medal_key (?T ! i)")
    case True
    let ?P = "\<lambda>y. medal_key y = medal_key (?T ! i)"
    have "filter ?P ?T = filter ?P ?ys"
      unfolding sorted_table_def by (rule sort_key_reverse_stable)
    moreover have "sorted (map name (filter ?P ?ys))"
      using sorted_filter [of name ?ys ?P] by simp
    ultimately have "sorted (map name (filter ?P ?T))" by simp
    from sorted_filter_nth [OF this assms(1) assms(2)] True
    show ?thesis by simp
  next
    case False
    with le show ?thesis by simp
  qed
qed

lemma ranked_table_length: "length (ranked_table pp) = length (sorted_table pp)"
  by (simp add: ranked_table_def rank_loop_length)

lemma ranked_table_nth:
  assumes "j < length (ranked_table pp)"
  shows "medal_key (ranked_table pp ! j) = medal_key (sorted_table pp ! j)"
    and "name (ranked_table pp ! j) = name (sorted_table pp ! j)"
proof -
  have j: "j < length (sorted_table pp)" using assms by (simp add: ranked_table_length)
  have "map medal_key (ranked_table pp) ! j = map medal_key (sorted_table pp) ! j"
    by (simp add: ranked_table_def rank_loop_fields)
  then show "medal_key (ranked_table pp ! j) = medal_key (sorted_table pp ! j)"
    using assms j by simp
  have "map name (ranked_table pp) ! j = map name (sorted_table pp) ! j"
    by (simp add: ranked_table_def rank_loop_fields)
  then show "name (ranked_table pp ! j) = name (sorted_table pp ! j)"
    using assms j by simp
qed

lemma ranked_table_pos:
  assumes "j < length (ranked_table pp)"
  shows "pos (ranked_table pp ! j) =
           1 + int (length (filter (\<lambda>x. medal_key (ranked_table pp ! j) < medal_key x)
                              (ranked_table pp)))"
proof -
  let ?T = "sorted_table pp"
  have j: "j < length ?T" using assms by (simp add: ranked_table_length)
  have d: "sorted_wrt (\<lambda>x y. medal_key y \<le> medal_key x) ?T"
    unfolding sorted_table_def by (rule sort_key_reverse_desc)
  have "pos (ranked_table pp ! j) =
          1 + int (length (filter (\<lambda>x. medal_key (?T ! j) < medal_key x) ?T))"
    unfolding ranked_table_def using rank_loop_pos [OF d _ j, of None 1 0] by simp
  moreover have "length (filter (\<lambda>x. medal_key (?T ! j) < medal_key x) ?T)
      = length (filter (\<lambda>k. medal_key (?T ! j) < k) (map medal_key ?T))"
    by (simp add: filter_map comp_def)
  moreover have "length (filter (\<lambda>x. medal_key (?T ! j) < medal_key x) (ranked_table pp))
      = length (filter (\<lambda>k. medal_key (?T ! j) < k) (map medal_key (ranked_table pp)))"
    by (simp add: filter_map comp_def)
  moreover have "map medal_key (ranked_table pp) = map medal_key ?T"
    by (simp add: ranked_table_def rank_loop_fields)
  ultimately show ?thesis
    using ranked_table_nth(1) [OF assms] by simp
qed

lemma ranked_table_group_start:
  assumes "j < length (ranked_table pp)"
    and "j = 0 \<or> medal_key (ranked_table pp ! (j - 1)) \<noteq> medal_key (ranked_table pp ! j)"
  shows "pos (ranked_table pp ! j) = int j + 1"
proof -
  let ?T = "sorted_table pp"
  have j: "j < length ?T" using assms by (simp add: ranked_table_length)
  have "if j = 0 then Some (medal_key (?T ! 0)) \<noteq> None
        else medal_key (?T ! (j - 1)) \<noteq> medal_key (?T ! j)"
    using assms ranked_table_nth(1) [of j pp] ranked_table_nth(1) [of "j - 1" pp]
    by auto
  from rank_loop_group_start [OF j this, of 1 0] show ?thesis
    by (simp add: ranked_table_def)
qed

subsection \<open>The points and saves in totals\<close>

lemma init_totals_rows_aux:
  assumes "fold (\<lambda>p m. m(p_id p \<mapsto>
             \<lparr>name = p_name p, points = 0, wins = 0, seconds = 0, thirds = 0, saves = 0\<rparr>))
          ps m0 k = Some t"
  shows "m0 k = Some t \<or> (points t = 0 \<and> saves t = 0)"
  using assms
proof (induction ps arbitrary: m0)
  case Nil
  then show ?case by simp
next
  case (Cons p ps)
  let ?row = "\<lparr>name = p_name p, points = 0, wins = 0, seconds = 0, thirds = 0, saves = 0\<rparr>"
  from Cons.prems have "fold (\<lambda>p m. m(p_id p \<mapsto>
             \<lparr>name = p_name p, points = 0, wins = 0, seconds = 0, thirds = 0, saves = 0\<rparr>))
          ps (m0(p_id p \<mapsto> ?row)) k = Some t"
    by (simp only: fold_simps comp_apply)
  from Cons.IH [OF this]
  have "(m0(p_id p \<mapsto> ?row)) k = Some t \<or> (points t = 0 \<and> saves t = 0)" .
  then show ?case
  proof
    assume u: "(m0(p_id p \<mapsto> ?row)) k = Some t"
    show ?thesis
    proof (cases "k = p_id p")
      case True
      with u have "t = ?row" by simp
      then show ?thesis by simp
    next
      case False
      with u show ?thesis by simp
    qed
  next
    assume "points t = 0 \<and> saves t = 0"
    then show ?thesis by simp
  qed
qed

lemma init_totals_zero:
  "init_totals ps k = Some t \<Longrightarrow> points t = 0 \<and> saves t = 0"
  using init_totals_rows_aux [of ps Map.empty k t] by (simp add: init_totals_def)

lemma apply_save_points:
  "map_option points (apply_save g tot k) = map_option (\<lambda>t. points t + save_bonus g k) (tot k)"
  by (auto simp: apply_save_def save_bonus_def split: option.splits)

lemma apply_save_saves:
  "map_option saves (apply_save g tot k) = map_option (\<lambda>t. saves t + save_bonus g k) (tot k)"
  by (auto simp: apply_save_def save_bonus_def split: option.splits)

lemma result_step_points:
  assumes "result_step g hw r a = Inr a'"
  shows "map_option points (totals a' k) =
           map_option (\<lambda>t. points t + (if player_id r = k
                                  then points_for_position (position r) (sweep g) else 0))
                      (totals a k)"
    and "map_option saves (totals a' k) = map_option saves (totals a k)"
  using assms
  by (auto simp: result_step_def Let_def split: option.splits if_splits)

lemma results_loop_points:
  assumes "for_each (result_step g hw) rs a = Inr a'"
  shows "map_option points (totals a' k) =
           map_option (\<lambda>t. points t + sum_list (map (\<lambda>r. points_for_position (position r) (sweep g))
                                              (filter (\<lambda>r. player_id r = k) rs)))
                      (totals a k)
       \<and> map_option saves (totals a' k) = map_option saves (totals a k)"
  using assms
proof (induction rs arbitrary: a)
  case Nil
  then show ?case by (simp add: option.map_ident)
next
  case (Cons r rs)
  from Cons.prems obtain a1 where s: "result_step g hw r a = Inr a1"
    and l: "for_each (result_step g hw) rs a1 = Inr a'"
    by (auto split: sum.splits)
  show ?case
    using Cons.IH [OF l] result_step_points [OF s, of k]
    by (cases "totals a k") (auto simp: option.map_comp comp_def)
qed

lemma game_step_points:
  assumes "game_step g a = Inr a'"
  shows "map_option points (totals a' k) =
           map_option (\<lambda>t. points t + (save_bonus g k + score_in g k)) (totals a k)
       \<and> map_option saves (totals a' k) = map_option (\<lambda>t. saves t + save_bonus g k) (totals a k)"
  using results_loop_points [OF assms [unfolded game_step_def Let_def], of k]
    apply_save_points [of g "totals a" k] apply_save_saves [of g "totals a" k]
  by (cases "totals a k") (auto simp: score_in_def)

lemma games_loop_points:
  assumes "for_each game_step gs a = Inr a'"
  shows "map_option points (totals a' k) =
           map_option (\<lambda>t. points t + sum_list (map (\<lambda>g. save_bonus g k + score_in g k) gs)) (totals a k)
       \<and> map_option saves (totals a' k) =
           map_option (\<lambda>t. saves t + sum_list (map (\<lambda>g. save_bonus g k) gs)) (totals a k)"
  using assms
proof (induction gs arbitrary: a)
  case Nil
  then show ?case by (simp add: option.map_ident)
next
  case (Cons g gs)
  from Cons.prems obtain a1 where s: "game_step g a = Inr a1"
    and l: "for_each game_step gs a1 = Inr a'"
    by (auto split: sum.splits)
  show ?case
    using Cons.IH [OF l] game_step_points [OF s, of k]
    by (cases "totals a k") (auto simp: option.map_comp comp_def)
qed

lemma sum_list_insort_key:
  "sum_list (map h (insort_key f x xs)) = (h x :: int) + sum_list (map h xs)"
  by (induction xs) auto

lemma sum_list_sort_key:
  "sum_list (map h (sort_key f xs)) = (sum_list (map h xs) :: int)"
  by (induction xs) (auto simp: sum_list_insort_key)

lemma accumulate_totals:
  assumes "accumulate st = Inr a" and "k \<in> active_ids st"
  shows "\<exists>t. totals a k = Some t
           \<and> saves t = sum_list (map (\<lambda>g. save_bonus g k) (games st))
           \<and> points t = sum_list (map (\<lambda>g. save_bonus g k + score_in g k) (games st))"
proof -
  let ?a0 = "\<lparr>totals = init_totals (active_players st), played_rounds = (\<lambda>_. {}),
              rests_by_player = (\<lambda>_. 0), all_rounds = {}\<rparr>"
  let ?a1 = "fold round_step (rounds st) ?a0"
  have l: "for_each game_step (ordered_games st) ?a1 = Inr a"
    using assms(1) by (simp add: accumulate_def Let_def)
  have t1: "totals ?a1 = init_totals (active_players st)"
    by (simp add: fold_round_step_totals)
  have "k \<in> dom (init_totals (active_players st))"
    using assms(2) by (simp add: dom_init_totals set_active_players active_ids_def)
  then obtain t0 where t0: "init_totals (active_players st) k = Some t0" by auto
  note z = init_totals_zero [OF t0]
  note h = games_loop_points [OF l, of k]
  from h t0 t1 obtain t where t: "totals a k = Some t" by auto
  have "saves t = sum_list (map (\<lambda>g. save_bonus g k) (ordered_games st))"
    using h t t0 t1 z by simp
  moreover have "points t = sum_list (map (\<lambda>g. save_bonus g k + score_in g k) (ordered_games st))"
    using h t t0 t1 z by simp
  ultimately show ?thesis
    using t by (simp add: ordered_games_def sum_list_sort_key)
qed

lemma game_step_inactive_save:
  assumes "save_player_id g = Some s" and "s \<notin> dom (totals a)"
  shows "game_step g a = game_step (g\<lparr>save_player_id := None\<rparr>) a"
proof -
  have 0: "result_step (g\<lparr>save_player_id := None\<rparr>) = result_step g"
    by (intro ext) (simp add: result_step_def Let_def split: option.splits)
  have 1: "apply_save g (totals a) = totals a"
    using assms by (auto simp: apply_save_def split: option.splits)
  have 2: "apply_save (g\<lparr>save_player_id := None\<rparr>) (totals a) = totals a"
    by (simp add: apply_save_def)
  have 3: "has_winner (g\<lparr>save_player_id := None\<rparr>) = has_winner g"
    by (simp add: has_winner_def)
  show ?thesis
    unfolding game_step_def Let_def by (simp add: 0 1 2 3)
qed

subsection \<open>Which stores the computation accepts\<close>

lemma results_active_iff:
  "results_active st \<longleftrightarrow>
     (\<forall>g \<in> set (games st). \<forall>r \<in> set (results g). player_id r \<in> active_ids st)"
  by (simp add: results_active_def list_all_iff)

lemma accumulate_success:
  assumes "results_active st"
  shows "\<exists>a. accumulate st = Inr a"
proof (cases "accumulate st")
  case (Inl e)
  from accumulate_Inl [OF Inl] assms show ?thesis
    by (auto simp: results_active_iff)
next
  case (Inr a)
  then show ?thesis by simp
qed

lemma accumulate_failure:
  assumes "\<not> results_active st"
  shows "\<exists>k. k \<notin> active_ids st \<and> accumulate st = Inl (KeyError k)"
proof (cases "accumulate st")
  case (Inl e)
  from accumulate_Inl [OF Inl] Inl show ?thesis by auto
next
  case (Inr a)
  from accumulate_Inr(2) [OF Inr] assms show ?thesis
    by (auto simp: results_active_iff)
qed

lemma length_per_player:
  assumes "build_per_player st a = Inr pp"
  shows "length pp = card (active_ids st)"
proof -
  note h = build_per_player_Inr [OF assms]
  have "card (set (map fst pp)) = length (map fst pp)"
    using h(2) by (rule distinct_card)
  then show ?thesis using h(1) by simp
qed

lemma label_verdicts_cases:
  assumes "distinct (map fst pp)"
  shows "label_verdicts pp =
           (if pp = [] \<or> 4 < length pp then Inr (relabel (spec_verdict pp) pp)
            else Inl IndexError)"
proof (cases "pp = []")
  case True
  then show ?thesis by (simp add: label_verdicts_Nil relabel_def)
next
  case False
  show ?thesis
  proof (cases "4 < length pp")
    case True
    then show ?thesis using label_verdicts_Inr [OF assms] by simp
  next
    case f: False
    then show ?thesis using label_verdicts_Inl [OF assms False] False by simp
  qed
qed

lemma index_per_player_Inr:
  assumes "index_per_player st = Inr pp"
  shows "\<exists>a pp0. accumulate st = Inr a \<and> build_per_player st a = Inr pp0
           \<and> pp = relabel (spec_verdict pp0) pp0"
proof -
  from assms obtain a pp0 where a: "accumulate st = Inr a"
    and b: "build_per_player st a = Inr pp0" and l: "label_verdicts pp0 = Inr pp"
    by (auto simp: index_per_player_def split: sum.splits)
  have "pp = relabel (spec_verdict pp0) pp0"
    using l label_verdicts_cases [OF build_per_player_Inr(2) [OF b]]
    by (auto split: if_splits)
  with a b show ?thesis by blast
qed

lemma set_relabel:
  "(k, row) \<in> set (relabel f pp) \<longleftrightarrow> (\<exists>r. (k, r) \<in> set pp \<and> row = r\<lparr>status := f k r\<rparr>)"
  by (auto simp: relabel_def)

lemma spec_verdict_relabel_dict: "spec_verdict (relabel f pp) k me = spec_verdict pp k (me :: per_player_row)"
  using spec_verdict_relabel [where s = "status me" and me = me and f = f and pp = pp and k = k]
  by simp

lemma lookup_all_all:
  assumes "distinct (map fst pp)"
  shows "lookup_all pp (map fst pp) = Inr (map snd pp)"
  using lookup_all_keys [of pp pp "\<lambda>_. True"] assms by simp

lemma index_of_per_player:
  assumes "accumulate st = Inr a" and "index_per_player st = Inr pp"
  shows "index st = Inr \<lparr>table = ranked_table pp,
                        participation = projr (participation_rows pp),
                        total_rounds = int (card (all_rounds a))\<rparr>"
proof -
  from index_per_player_Inr [OF assms(2)] assms(1) obtain pp0
    where b: "build_per_player st a = Inr pp0" and r: "pp = relabel (spec_verdict pp0) pp0"
    by auto
  have l: "label_verdicts pp0 = Inr pp"
    using assms b by (simp add: index_per_player_def)
  have "distinct (map fst pp)"
    using build_per_player_Inr(2) [OF b] r by (simp add: map_fst_relabel)
  then have "\<exists>part. participation_rows pp = Inr part"
    by (simp add: participation_rows_def lookup_all_all)
  then show ?thesis
    using assms(1) b l by (auto simp: index_def)
qed

lemma index_Inr:
  assumes "index st = Inr out"
  shows "\<exists>a pp. accumulate st = Inr a \<and> index_per_player st = Inr pp
           \<and> table out = ranked_table pp \<and> total_rounds out = int (card (all_rounds a))"
  using assms
  by (auto simp: index_def index_per_player_def split: sum.splits)

lemma index_per_player_success:
  assumes "results_active st" and "5 \<le> card (active_ids st)"
  shows "\<exists>a pp0. accumulate st = Inr a \<and> build_per_player st a = Inr pp0
           \<and> index_per_player st = Inr (relabel (spec_verdict pp0) pp0)"
proof -
  from accumulate_success [OF assms(1)] obtain a where a: "accumulate st = Inr a" by blast
  from build_per_player_success [OF accumulate_Inr(1) [OF a]]
  obtain pp0 where b: "build_per_player st a = Inr pp0" by blast
  have "4 < length pp0" using length_per_player [OF b] assms(2) by simp
  then have "label_verdicts pp0 = Inr (relabel (spec_verdict pp0) pp0)"
    using label_verdicts_cases [OF build_per_player_Inr(2) [OF b]] by simp
  with a b show ?thesis by (auto simp: index_per_player_def)
qed

lemma index_per_player_few:
  assumes "results_active st" and "0 < card (active_ids st)" and "card (active_ids st) < 5"
  shows "index_per_player st = Inl IndexError"
proof -
  from accumulate_success [OF assms(1)] obtain a where a: "accumulate st = Inr a" by blast
  from build_per_player_success [OF accumulate_Inr(1) [OF a]]
  obtain pp0 where b: "build_per_player st a = Inr pp0" by blast
  have "pp0 \<noteq> []" "\<not> 4 < length pp0" using length_per_player [OF b] assms(2,3) by auto
  then have "label_verdicts pp0 = Inl IndexError"
    using label_verdicts_cases [OF build_per_player_Inr(2) [OF b]] by simp
  with a b show ?thesis by (auto simp: index_per_player_def)
qed

subsection \<open>From the dictionary to the table\<close>

lemma rank_loop_ids:
  "map (\<lambda>r. (row_id r, row_status r)) (rank_loop i l c ts) = map (\<lambda>r. (row_id r, row_status r)) ts"
  by (induction ts arbitrary: i l c)
     (simp_all add: rank_loop_Cons extend_fields del: rank_loop.simps(2))

lemma ranked_table_ids:
  "(\<lambda>r. (row_id r, row_status r)) ` set (ranked_table pp) = (\<lambda>(k, me). (k, status me)) ` set pp"
proof -
  have "(\<lambda>r. (row_id r, row_status r)) ` set (ranked_table pp)
      = set (map (\<lambda>r. (row_id r, row_status r)) (ranked_table pp))" by simp
  also have "\<dots> = set (map (\<lambda>r. (row_id r, row_status r)) (sorted_table pp))"
    by (simp only: ranked_table_def rank_loop_ids)
  also have "\<dots> = (\<lambda>r. (row_id r, row_status r)) ` set (table_rows pp)"
    by (simp add: sorted_table_def set_sort_key_reverse)
  also have "\<dots> = (\<lambda>(k, me). (k, status me)) ` set pp"
    by (force simp: table_rows_def image_iff)
  finally show ?thesis .
qed

lemma ranked_table_distinct:
  assumes "distinct (map fst pp)"
  shows "distinct (map row_id (ranked_table pp))"
proof -
  have "map row_id (table_rows pp) = map fst pp"
    by (induction pp) (auto simp: table_rows_def)
  then have "distinct (map row_id (table_rows pp))" using assms by simp
  then have "distinct (map row_id (sorted_table pp))"
    by (simp add: sorted_table_def distinct_map_sort_key_reverse distinct_map_sort_key)
  then show ?thesis
    by (simp add: ranked_table_def rank_loop_fields)
qed

lemma index_per_player_keys:
  assumes "index_per_player st = Inr pp"
  shows "distinct (map fst pp)" and "fst ` set pp = active_ids st"
proof -
  from index_per_player_Inr [OF assms] obtain a pp0
    where b: "build_per_player st a = Inr pp0" and r: "pp = relabel (spec_verdict pp0) pp0"
    by blast
  show "distinct (map fst pp)"
    using build_per_player_Inr(2) [OF b] r by (simp add: map_fst_relabel)
  have "fst ` set pp = set (map fst pp)" by simp
  also have "\<dots> = set (map fst pp0)" using r by (simp only: map_fst_relabel)
  finally show "fst ` set pp = active_ids st"
    using build_per_player_Inr(1) [OF b] by simp
qed

lemma index_per_player_rows:
  assumes "index_per_player st = Inr pp" and "(k, row) \<in> set pp"
  shows "\<exists>a. accumulate st = Inr a \<and> k \<in> active_ids st
           \<and> played row = int (card (played_rounds a k))
           \<and> rests row = rests_by_player a k
           \<and> planned_to_play row = max (int (card (all_rounds a)) - rests row) 0
           \<and> remaining row = max (planned_to_play row - played row) 0
           \<and> lb row = points row
           \<and> ub row = lb row + 4 * remaining row
           \<and> (\<exists>t. totals a k = Some t \<and> points row = points t \<and> saves row = saves t)"
proof -
  from index_per_player_Inr [OF assms(1)] obtain a pp0
    where a: "accumulate st = Inr a" and b: "build_per_player st a = Inr pp0"
      and r: "pp = relabel (spec_verdict pp0) pp0"
    by blast
  from assms(2) r obtain r0 where m: "(k, r0) \<in> set pp0"
    and e: "row = r0\<lparr>status := spec_verdict pp0 k r0\<rparr>"
    by (auto simp: set_relabel)
  from build_per_player_Inr(3) [OF b] m have "row_of a (int (card (all_rounds a))) k r0"
    by auto
  then have "row_of a (int (card (all_rounds a))) k (r0\<lparr>status := None\<rparr>)"
    by (simp add: row_of_def)
  moreover have "k \<in> active_ids st"
    using build_per_player_Inr(1) [OF b] m by force
  ultimately show ?thesis
    using a e unfolding row_of_def by auto
qed

subsection \<open>Index 3 of the descending sort is the fourth highest\<close>

lemma length_filter_sorted_desc:
  "length (filter P (rev (sort xs))) = length (filter P (xs :: int list))"
proof -
  have "filter P (rev (sort xs)) = rev (sort (filter P xs))"
    by (simp add: rev_filter [symmetric] filter_sort)
  then show ?thesis by simp
qed

lemma fourth_highest_is_fourth:
  assumes "4 \<le> length xs"
  shows "fourth_highest xs \<in> set xs
       \<and> length (filter (\<lambda>x. fourth_highest xs < x) xs) \<le> 3
       \<and> 4 \<le> length (filter (\<lambda>x. fourth_highest xs \<le> x) xs)"
proof -
  let ?ys = "rev (sort xs)"
  let ?v = "?ys ! 3"
  have len: "length ?ys = length xs" by simp
  have srt: "sorted (rev ?ys)" by simp
  have mono: "\<And>i j. i \<le> j \<Longrightarrow> j < length ?ys \<Longrightarrow> ?ys ! j \<le> ?ys ! i"
    using sorted_rev_nth_mono [OF srt] by blast
  have "?v \<in> set ?ys" using assms len by (simp del: set_rev set_sort length_rev length_sort)
  then have 1: "?v \<in> set xs" by simp
  have "\<forall>x \<in> set (drop 3 ?ys). x \<le> ?v"
  proof
    fix x
    assume "x \<in> set (drop 3 ?ys)"
    then obtain i where i: "i < length (drop 3 ?ys)" and x: "drop 3 ?ys ! i = x"
      by (auto simp: in_set_conv_nth)
    from i have b: "3 + i < length ?ys" by simp
    from x assms have "x = ?ys ! (3 + i)" by simp
    with mono [of 3 "3 + i"] b show "x \<le> ?v" by simp
  qed
  then have "filter (\<lambda>x. ?v < x) (drop 3 ?ys) = []"
    by (auto simp: filter_empty_conv)
  then have "filter (\<lambda>x. ?v < x) ?ys = filter (\<lambda>x. ?v < x) (take 3 ?ys)"
    by (metis append_Nil2 append_take_drop_id filter_append)
  then have "length (filter (\<lambda>x. ?v < x) ?ys) \<le> 3"
    by (metis length_filter_le length_take min.cobounded2 order_trans)
  then have 2: "length (filter (\<lambda>x. ?v < x) xs) \<le> 3"
    by (simp only: length_filter_sorted_desc)
  have "\<forall>x \<in> set (take 4 ?ys). ?v \<le> x"
  proof
    fix x
    assume "x \<in> set (take 4 ?ys)"
    then obtain i where i: "i < length (take 4 ?ys)" and x: "take 4 ?ys ! i = x"
      by (auto simp: in_set_conv_nth)
    from i have b: "i \<le> 3" by simp
    from x i have "x = ?ys ! i" by simp
    with mono [of i 3] b assms show "?v \<le> x" by simp
  qed
  then have "filter (\<lambda>x. ?v \<le> x) (take 4 ?ys) = take 4 ?ys"
    by (simp add: filter_id_conv)
  moreover have "length (filter (\<lambda>x. ?v \<le> x) ?ys)
        = length (filter (\<lambda>x. ?v \<le> x) (take 4 ?ys)) + length (filter (\<lambda>x. ?v \<le> x) (drop 4 ?ys))"
    by (metis append_take_drop_id filter_append length_append)
  ultimately have "4 \<le> length (filter (\<lambda>x. ?v \<le> x) ?ys)"
    using assms len by simp
  then have 3: "4 \<le> length (filter (\<lambda>x. ?v \<le> x) xs)"
    by (simp only: length_filter_sorted_desc)
  from 1 2 3 show ?thesis by (simp add: fourth_highest_def)
qed

section \<open>The properties of the specification\<close>

subsection \<open>The labels\<close>

text \<open>
  C1. When every stored result is of an active player and there are at least five active
  players (so each has at least four rivals), \<open>index\<close> returns, \<open>per_player\<close> has one
  entry for each active player, and each entry \<open>me\<close> of player \<open>k\<close> is labelled from the
  other entries (the rivals): with the fourth highest \<open>ub\<close> and the fourth highest \<open>lb\<close>
  among the rivals (index 3 of the list sorted descending), the label is CLASIFICADO
  exactly when \<open>lb me\<close> is above the fourth highest rival \<open>ub\<close>, otherwise ELIMINADO
  exactly when \<open>ub me\<close> is below the fourth highest rival \<open>lb\<close>, otherwise none. The rows
  of the table carry these labels.
\<close>

theorem verdict_assignment:
  assumes "results_active st" and "5 \<le> card (active_ids st)"
  shows "\<exists>pp out. index_per_player st = Inr pp \<and> index st = Inr out
           \<and> fst ` set pp = active_ids st
           \<and> (\<forall>(k, me) \<in> set pp.
                 status me =
                   (if lb me > fourth_highest (map ub (rivals pp k)) then Some CLASIFICADO
                    else if ub me < fourth_highest (map lb (rivals pp k)) then Some ELIMINADO
                    else None))
           \<and> (\<lambda>r. (row_id r, row_status r)) ` set (table out)
               = (\<lambda>(k, me). (k, status me)) ` set pp"
proof -
  from index_per_player_success [OF assms] obtain a pp0
    where a: "accumulate st = Inr a" and b: "build_per_player st a = Inr pp0"
      and i: "index_per_player st = Inr (relabel (spec_verdict pp0) pp0)"
    by blast
  let ?pp = "relabel (spec_verdict pp0) pp0"
  let ?out = "\<lparr>table = ranked_table ?pp, participation = projr (participation_rows ?pp),
               total_rounds = int (card (all_rounds a))\<rparr>"
  have o: "index st = Inr ?out" by (rule index_of_per_player [OF a i])
  have k: "fst ` set ?pp = active_ids st" by (rule index_per_player_keys(2) [OF i])
  have v: "\<forall>(k, me) \<in> set ?pp. status me = spec_verdict ?pp k me"
    by (auto simp: set_relabel spec_verdict_relabel)
  have t: "(\<lambda>r. (row_id r, row_status r)) ` set (table ?out)
           = (\<lambda>(k, me). (k, status me)) ` set ?pp"
    by (simp add: ranked_table_ids)
  from i o k v t show ?thesis
    unfolding spec_verdict_def by blast
qed

theorem verdict_assignment_witness:
  "\<exists>pp out. index_per_player st_finished = Inr pp \<and> index st_finished = Inr out
     \<and> map_option status (map_of pp 1) = Some (Some CLASIFICADO)
     \<and> map_option status (map_of pp 4) = Some (Some ELIMINADO)
     \<and> fourth_highest (map ub (rivals pp 1)) = 0
     \<and> fourth_highest (map lb (rivals pp 4)) = 1"
proof -
  have h1: "results_active st_finished" by code_simp
  have h2: "5 \<le> card (active_ids st_finished)" by code_simp
  have e: "index_per_player st_finished = Inr
     [(4, \<lparr>name = ''Borux'', points = 0, wins = 0, seconds = 0, thirds = 0,
             saves = 0, played = 1, rests = 1, planned_to_play = 1,
             remaining = 0, lb = 0, ub = 0, status = Some ELIMINADO\<rparr>),
      (2, \<lparr>name = ''Gueta'', points = 5, wins = 0, seconds = 2, thirds = 0,
             saves = 1, played = 2, rests = 0, planned_to_play = 2,
             remaining = 0, lb = 5, ub = 5, status = Some CLASIFICADO\<rparr>),
      (5, \<lparr>name = ''Mauro'', points = 1, wins = 0, seconds = 0, thirds = 1,
             saves = 0, played = 1, rests = 1, planned_to_play = 1,
             remaining = 0, lb = 1, ub = 1, status = Some CLASIFICADO\<rparr>),
      (1, \<lparr>name = ''Negro'', points = 6, wins = 2, seconds = 0, thirds = 0,
             saves = 0, played = 2, rests = 0, planned_to_play = 2,
             remaining = 0, lb = 6, ub = 6, status = Some CLASIFICADO\<rparr>),
      (3, \<lparr>name = ''Teran'', points = 1, wins = 0, seconds = 0, thirds = 1,
             saves = 0, played = 2, rests = 0, planned_to_play = 2,
             remaining = 0, lb = 1, ub = 1, status = Some CLASIFICADO\<rparr>)]"
    (is "_ = Inr ?pp")
    by code_simp
  have f: "fourth_highest (map ub (rivals ?pp 1)) = 0 \<and> fourth_highest (map lb (rivals ?pp 4)) = 1"
    by code_simp
  from verdict_assignment [OF h1 h2] obtain pp out
    where p: "index_per_player st_finished = Inr pp" and o: "index st_finished = Inr out"
    by blast
  from p e have "pp = ?pp" by simp
  with p o f show ?thesis by auto
qed

subsection \<open>Fewer than five active players\<close>

text \<open>
  C2. The claim is that with fewer than five active players the standings computation
  still completes, every player without a label. The code does not: with one to four
  active players (and every stored result of an active player) \<open>index\<close> raises
  IndexError at \<open>rival_LBs[3]\<close>, the list of rivals having fewer than four elements.
  The theorem states what the code does; \<open>st_four\<close> is such a store.
\<close>

theorem index_fails_below_five:
  assumes "results_active st" and "0 < card (active_ids st)" and "card (active_ids st) < 5"
  shows "index st = Inl IndexError"
  using index_per_player_few [OF assms]
  by (auto simp: index_def index_per_player_def split: sum.splits)

theorem index_fails_below_five_witness:
  "card (active_ids st_four) = 4 \<and> index st_four = Inl IndexError"
proof -
  have h: "results_active st_four" by code_simp
  have c: "card (active_ids st_four) = 4" by code_simp
  from index_fails_below_five [OF h] c show ?thesis by simp
qed

subsection \<open>The participation rule\<close>

text \<open>
  C3. A table counts as played exactly when one of its results has position 1 or its
  sweep flag is set. When every stored result is of an active player the accumulation
  returns, and then every participant of a played table, whatever the position (none
  included), has the round number of the table in the set of played rounds; the set of
  played rounds of a player is exactly the set of round numbers of the played tables the
  player takes part in.
\<close>

theorem participation_rule:
  assumes "results_active st"
  shows "(\<forall>g. has_winner g = ((\<exists>r \<in> set (results g). position r = Some 1) \<or> sweep g))
       \<and> (\<exists>a. accumulate st = Inr a
             \<and> (\<forall>g \<in> set (games st). has_winner g \<longrightarrow>
                   (\<forall>r \<in> set (results g). round_number g \<in> played_rounds a (player_id r)))
             \<and> (\<forall>k. played_rounds a k = credited_rounds st k))"
proof -
  have w: "\<forall>g. has_winner g = ((\<exists>r \<in> set (results g). position r = Some 1) \<or> sweep g)"
    by (simp add: has_winner_def list_ex_iff)
  from accumulate_success [OF assms] obtain a where a: "accumulate st = Inr a" by blast
  have p: "\<forall>k. played_rounds a k = credited_rounds st k"
    using accumulate_Inr(5) [OF a] by (auto simp: credited_rounds_def)
  then have "\<forall>g \<in> set (games st). has_winner g \<longrightarrow>
                   (\<forall>r \<in> set (results g). round_number g \<in> played_rounds a (player_id r))"
    by (auto simp: credited_rounds_def)
  with w a p show ?thesis by blast
qed

theorem participation_rule_witness:
  "results_active st_finished
   \<and> (\<exists>a. accumulate st_finished = Inr a
         \<and> played_rounds a 4 = {1} \<and> played_rounds a 3 = {1, 2} \<and> played_rounds a 6 = {})"
proof -
  have h: "results_active st_finished" by code_simp
  have c: "credited_rounds st_finished 4 = {1} \<and> credited_rounds st_finished 3 = {1, 2}
           \<and> credited_rounds st_finished 6 = {}"
    by code_simp
  from participation_rule [OF h] obtain a where "accumulate st_finished = Inr a"
    and "\<forall>k. played_rounds a k = credited_rounds st_finished k"
    by blast
  with h c show ?thesis by auto
qed

subsection \<open>The bounds\<close>

text \<open>
  C4. In every computed \<open>per_player\<close>, the entry of player \<open>k\<close> belongs to an active
  player and holds: \<open>rests\<close>, the number of rounds whose bye is \<open>k\<close> (for an id other
  than 0: the code reads the bye through Python truth, and the ids of the store are
  primary keys counted from 1); \<open>planned_to_play = max(total_rounds - rests, 0)\<close>, where
  \<open>total_rounds\<close> is the number of distinct round numbers of the rounds and the tables
  (also the \<open>total_rounds\<close> that \<open>index\<close> returns); \<open>played\<close>, the number of distinct
  rounds credited by the participation rule; \<open>remaining = max(planned_to_play - played, 0)\<close>;
  \<open>lb\<close>, the points of the player, which are the scores and the save bonuses over all
  tables; \<open>ub = lb + 4 * remaining\<close>.
\<close>

theorem bounds_formulas:
  assumes "index_per_player st = Inr pp" and "(k, row) \<in> set pp"
  shows "k \<in> active_ids st
       \<and> (k \<noteq> 0 \<longrightarrow> rests row = byes_of st k)
       \<and> planned_to_play row = max (int (card (round_numbers st)) - rests row) 0
       \<and> played row = int (card (credited_rounds st k))
       \<and> remaining row = max (planned_to_play row - played row) 0
       \<and> lb row = points row
       \<and> points row = sum_list (map (\<lambda>g. save_bonus g k + score_in g k) (games st))
       \<and> ub row = lb row + 4 * remaining row
       \<and> (\<forall>out. index st = Inr out \<longrightarrow> total_rounds out = int (card (round_numbers st)))"
proof -
  from index_per_player_rows [OF assms] obtain a t
    where a: "accumulate st = Inr a" and k: "k \<in> active_ids st"
      and 1: "played row = int (card (played_rounds a k))"
      and 2: "rests row = rests_by_player a k"
      and 3: "planned_to_play row = max (int (card (all_rounds a)) - rests row) 0"
      and 4: "remaining row = max (planned_to_play row - played row) 0"
      and 5: "lb row = points row"
      and 6: "ub row = lb row + 4 * remaining row"
      and 7: "totals a k = Some t" and 8: "points row = points t"
    by blast
  have r: "all_rounds a = round_numbers st"
    using accumulate_Inr(3) [OF a] by (simp add: round_numbers_def)
  have c: "played_rounds a k = credited_rounds st k"
    using accumulate_Inr(5) [OF a, of k] by (auto simp: credited_rounds_def)
  have b: "k \<noteq> 0 \<longrightarrow> rests row = byes_of st k"
    using accumulate_Inr(4) [OF a, of k] 2 by (simp add: byes_of_def)
  have p: "points row = sum_list (map (\<lambda>g. save_bonus g k + score_in g k) (games st))"
    using accumulate_totals [OF a k] 7 8 by auto
  have o: "\<forall>out. index st = Inr out \<longrightarrow> total_rounds out = int (card (round_numbers st))"
  proof (intro allI impI)
    fix out
    assume "index st = Inr out"
    from index_Inr [OF this] a r show "total_rounds out = int (card (round_numbers st))"
      by auto
  qed
  from k b 3 r 1 c 4 5 p 6 o show ?thesis by simp
qed

theorem bounds_formulas_witness:
  "\<exists>pp row. index_per_player st_finished = Inr pp \<and> map_of pp 4 = Some row
     \<and> byes_of st_finished 4 = 1 \<and> rests row = 1
     \<and> card (round_numbers st_finished) = 2 \<and> planned_to_play row = 1
     \<and> credited_rounds st_finished 4 = {1} \<and> played row = 1
     \<and> remaining row = 0 \<and> lb row = 0 \<and> ub row = 0"
proof -
  let ?row = "\<lparr>name = ''Borux'', points = 0, wins = 0, seconds = 0, thirds = 0,
             saves = 0, played = 1, rests = 1, planned_to_play = 1,
             remaining = 0, lb = 0, ub = 0, status = Some ELIMINADO\<rparr>"
  let ?pp = "[(4, ?row),
      (2, \<lparr>name = ''Gueta'', points = 5, wins = 0, seconds = 2, thirds = 0,
             saves = 1, played = 2, rests = 0, planned_to_play = 2,
             remaining = 0, lb = 5, ub = 5, status = Some CLASIFICADO\<rparr>),
      (5, \<lparr>name = ''Mauro'', points = 1, wins = 0, seconds = 0, thirds = 1,
             saves = 0, played = 1, rests = 1, planned_to_play = 1,
             remaining = 0, lb = 1, ub = 1, status = Some CLASIFICADO\<rparr>),
      (1, \<lparr>name = ''Negro'', points = 6, wins = 2, seconds = 0, thirds = 0,
             saves = 0, played = 2, rests = 0, planned_to_play = 2,
             remaining = 0, lb = 6, ub = 6, status = Some CLASIFICADO\<rparr>),
      (3, \<lparr>name = ''Teran'', points = 1, wins = 0, seconds = 0, thirds = 1,
             saves = 0, played = 2, rests = 0, planned_to_play = 2,
             remaining = 0, lb = 1, ub = 1, status = Some CLASIFICADO\<rparr>)]"
  have e: "index_per_player st_finished = Inr ?pp" by code_simp
  have m: "(4, ?row) \<in> set ?pp" by simp
  have c: "byes_of st_finished 4 = 1 \<and> card (round_numbers st_finished) = 2
           \<and> credited_rounds st_finished 4 = {1}"
    by code_simp
  from bounds_formulas [OF e m] c have "rests ?row = 1 \<and> planned_to_play ?row = 1
     \<and> played ?row = 1 \<and> remaining ?row = 0 \<and> lb ?row = 0 \<and> ub ?row = 0"
    by simp
  with e c show ?thesis by simp
qed

subsection \<open>Results of inactive players\<close>

text \<open>
  C5. The claim is that the standings computation completes for every store, also when
  stored results belong to inactive players. The code does not: the save of a table is
  guarded (\<open>in totals\<close>), the results are not, and \<open>totals[r.player_id]\<close> raises KeyError
  for the first result of a player who is not active. The theorem states what the code
  does; \<open>st_deactivated\<close> is such a store, with five active players.
\<close>

theorem index_fails_on_inactive_result:
  assumes "\<not> results_active st"
  shows "\<exists>k. k \<notin> active_ids st \<and> index st = Inl (KeyError k)"
proof -
  from accumulate_failure [OF assms] obtain k
    where "k \<notin> active_ids st" and "accumulate st = Inl (KeyError k)" by blast
  then show ?thesis by (auto simp: index_def)
qed

theorem index_fails_on_inactive_result_witness:
  "6 \<notin> active_ids st_deactivated \<and> card (active_ids st_deactivated) = 5
   \<and> index st_deactivated = Inl (KeyError 6)"
proof -
  have h: "\<not> results_active st_deactivated" by code_simp
  have c: "6 \<notin> active_ids st_deactivated \<and> card (active_ids st_deactivated) = 5" by code_simp
  have e: "index st_deactivated = Inl (KeyError 6)" by code_simp
  from index_fails_on_inactive_result [OF h] obtain k
    where "index st_deactivated = Inl (KeyError k)" by blast
  with e have "k = 6" by simp
  with c e show ?thesis by simp
qed

subsection \<open>The ranking\<close>

text \<open>
  C6. The table that \<open>index\<close> returns is sorted by the medal key (points, wins, seconds,
  thirds) descending, rows of equal key by name ascending. The rank \<open>pos\<close> of a row is
  1 plus the number of rows with a strictly higher key, so it depends on the keys alone
  and never on a name; rows of equal key have equal rank; and the first row of each group
  of equal keys has its 1-based row index as rank (standard competition ranking).
\<close>

theorem ranking:
  assumes "index st = Inr out"
  shows "(\<forall>i j. i < j \<and> j < length (table out) \<longrightarrow>
            medal_key (table out ! j) < medal_key (table out ! i)
            \<or> (medal_key (table out ! j) = medal_key (table out ! i)
                \<and> name (table out ! i) \<le> name (table out ! j)))
       \<and> (\<forall>j. j < length (table out) \<longrightarrow>
            pos (table out ! j) =
              1 + int (length (filter (\<lambda>x. medal_key (table out ! j) < medal_key x) (table out))))
       \<and> (\<forall>i j. i < length (table out) \<and> j < length (table out)
                \<and> medal_key (table out ! i) = medal_key (table out ! j) \<longrightarrow>
            pos (table out ! i) = pos (table out ! j))
       \<and> (\<forall>j. j < length (table out)
                \<and> (j = 0 \<or> medal_key (table out ! (j - 1)) \<noteq> medal_key (table out ! j)) \<longrightarrow>
            pos (table out ! j) = int j + 1)"
proof -
  from index_Inr [OF assms] obtain pp where t: "table out = ranked_table pp" by blast
  have 1: "\<forall>i j. i < j \<and> j < length (table out) \<longrightarrow>
            medal_key (table out ! j) < medal_key (table out ! i)
            \<or> (medal_key (table out ! j) = medal_key (table out ! i)
                \<and> name (table out ! i) \<le> name (table out ! j))"
  proof (intro allI impI)
    fix i j
    assume h: "i < j \<and> j < length (table out)"
    then have j: "j < length (ranked_table pp)" and i: "i < length (ranked_table pp)"
      using t by simp_all
    from h j have "j < length (sorted_table pp)" by (simp add: ranked_table_length)
    from sorted_table_order [OF _ this, of i] h
      ranked_table_nth [OF j] ranked_table_nth [OF i] t
    show "medal_key (table out ! j) < medal_key (table out ! i)
            \<or> (medal_key (table out ! j) = medal_key (table out ! i)
                \<and> name (table out ! i) \<le> name (table out ! j))"
      by simp
  qed
  have 2: "\<forall>j. j < length (table out) \<longrightarrow>
            pos (table out ! j) =
              1 + int (length (filter (\<lambda>x. medal_key (table out ! j) < medal_key x) (table out)))"
    using ranked_table_pos [of _ pp] t by simp
  have 3: "\<forall>i j. i < length (table out) \<and> j < length (table out)
                \<and> medal_key (table out ! i) = medal_key (table out ! j) \<longrightarrow>
            pos (table out ! i) = pos (table out ! j)"
    using 2 by simp
  have 4: "\<forall>j. j < length (table out)
                \<and> (j = 0 \<or> medal_key (table out ! (j - 1)) \<noteq> medal_key (table out ! j)) \<longrightarrow>
            pos (table out ! j) = int j + 1"
    using ranked_table_group_start [of _ pp] t by simp
  from 1 2 3 4 show ?thesis by blast
qed

theorem ranking_witness:
  "\<exists>out. index st_finished = Inr out
     \<and> map name (table out) = [''Negro'', ''Gueta'', ''Mauro'', ''Teran'', ''Borux'']
     \<and> map medal_key (table out) = [(6, 2, 0, 0), (5, 0, 2, 0), (1, 0, 0, 1), (1, 0, 0, 1), (0, 0, 0, 0)]
     \<and> map pos (table out) = [1, 2, 3, 3, 5]"
proof -
  let ?out = "\<lparr>table =
        [\<lparr>name = ''Negro'', points = 6, wins = 2, seconds = 0, thirds = 0,
            saves = 0, row_id = 1, row_status = Some CLASIFICADO, pos = 1\<rparr>,
         \<lparr>name = ''Gueta'', points = 5, wins = 0, seconds = 2, thirds = 0,
            saves = 1, row_id = 2, row_status = Some CLASIFICADO, pos = 2\<rparr>,
         \<lparr>name = ''Mauro'', points = 1, wins = 0, seconds = 0, thirds = 1,
            saves = 0, row_id = 5, row_status = Some CLASIFICADO, pos = 3\<rparr>,
         \<lparr>name = ''Teran'', points = 1, wins = 0, seconds = 0, thirds = 1,
            saves = 0, row_id = 3, row_status = Some CLASIFICADO, pos = 3\<rparr>,
         \<lparr>name = ''Borux'', points = 0, wins = 0, seconds = 0, thirds = 0,
            saves = 0, row_id = 4, row_status = Some ELIMINADO, pos = 5\<rparr>],
        participation =
          [\<lparr>part_name = ''Borux'', part_played = 1, part_remaining = 0,
              part_rests = 1, part_planned_to_play = 1\<rparr>,
           \<lparr>part_name = ''Gueta'', part_played = 2, part_remaining = 0,
              part_rests = 0, part_planned_to_play = 2\<rparr>,
           \<lparr>part_name = ''Mauro'', part_played = 1, part_remaining = 0,
              part_rests = 1, part_planned_to_play = 1\<rparr>,
           \<lparr>part_name = ''Negro'', part_played = 2, part_remaining = 0,
              part_rests = 0, part_planned_to_play = 2\<rparr>,
           \<lparr>part_name = ''Teran'', part_played = 2, part_remaining = 0,
              part_rests = 0, part_planned_to_play = 2\<rparr>],
        total_rounds = 2\<rparr>"
  have e: "index st_finished = Inr ?out" by code_simp
  from ranking [OF e] have "pos (table ?out ! 3) = pos (table ?out ! 2)" by simp
  with e show ?thesis by (intro exI [of _ ?out]) (simp add: medal_key_def)
qed

subsection \<open>The scoring rule\<close>

text \<open>
  C7. The scoring function is defined on every finish position (none, or any integer) and
  both sweep flags. It gives 0 for no position; under sweep 3 for position 1 and 0 for any
  other position; without sweep 3, 2, 1 for positions 1, 2, 3 and 0 for any other value.
\<close>

theorem points_for_position_values:
  "points_for_position None sw = 0
   \<and> points_for_position (Some 1) True = 3
   \<and> (p \<noteq> 1 \<longrightarrow> points_for_position (Some p) True = 0)
   \<and> points_for_position (Some 1) False = 3
   \<and> points_for_position (Some 2) False = 2
   \<and> points_for_position (Some 3) False = 1
   \<and> (p \<noteq> 1 \<and> p \<noteq> 2 \<and> p \<noteq> 3 \<longrightarrow> points_for_position (Some p) False = 0)"
  by simp

theorem points_for_position_values_witness:
  "points_for_position None True = 0
   \<and> points_for_position (Some 1) True = 3
   \<and> ((2::int) \<noteq> 1 \<and> points_for_position (Some 2) True = 0)
   \<and> points_for_position (Some 1) False = 3
   \<and> points_for_position (Some 2) False = 2
   \<and> points_for_position (Some 3) False = 1
   \<and> ((4::int) \<noteq> 1 \<and> (4::int) \<noteq> 2 \<and> (4::int) \<noteq> 3 \<and> points_for_position (Some 4) False = 0)"
  using points_for_position_values [of True 2] points_for_position_values [of True 4]
  by simp

subsection \<open>Monotone bounds\<close>

text \<open>
  C8. In every computed \<open>per_player\<close>, each entry has \<open>lb \<le> points \<le> ub\<close>, and so
  \<open>lb \<le> ub\<close>.
\<close>

theorem bounds_monotone:
  assumes "index_per_player st = Inr pp" and "(k, row) \<in> set pp"
  shows "lb row \<le> points row \<and> points row \<le> ub row \<and> lb row \<le> ub row"
proof -
  from index_per_player_rows [OF assms]
  have "remaining row = max (planned_to_play row - played row) 0"
    and "lb row = points row" and "ub row = lb row + 4 * remaining row"
    by auto
  then show ?thesis by simp
qed

theorem bounds_monotone_witness:
  "\<exists>pp row. index_per_player st_finished = Inr pp \<and> map_of pp 2 = Some row
     \<and> lb row = 5 \<and> points row = 5 \<and> ub row = 5"
proof -
  let ?row = "\<lparr>name = ''Gueta'', points = 5, wins = 0, seconds = 2, thirds = 0,
             saves = 1, played = 2, rests = 0, planned_to_play = 2,
             remaining = 0, lb = 5, ub = 5, status = Some CLASIFICADO\<rparr>"
  let ?pp = "[(4, \<lparr>name = ''Borux'', points = 0, wins = 0, seconds = 0, thirds = 0,
             saves = 0, played = 1, rests = 1, planned_to_play = 1,
             remaining = 0, lb = 0, ub = 0, status = Some ELIMINADO\<rparr>),
      (2, ?row),
      (5, \<lparr>name = ''Mauro'', points = 1, wins = 0, seconds = 0, thirds = 1,
             saves = 0, played = 1, rests = 1, planned_to_play = 1,
             remaining = 0, lb = 1, ub = 1, status = Some CLASIFICADO\<rparr>),
      (1, \<lparr>name = ''Negro'', points = 6, wins = 2, seconds = 0, thirds = 0,
             saves = 0, played = 2, rests = 0, planned_to_play = 2,
             remaining = 0, lb = 6, ub = 6, status = Some CLASIFICADO\<rparr>),
      (3, \<lparr>name = ''Teran'', points = 1, wins = 0, seconds = 0, thirds = 1,
             saves = 0, played = 2, rests = 0, planned_to_play = 2,
             remaining = 0, lb = 1, ub = 1, status = Some CLASIFICADO\<rparr>)]"
  have e: "index_per_player st_finished = Inr ?pp" by code_simp
  have m: "(2, ?row) \<in> set ?pp" by simp
  from bounds_monotone [OF e m] have "lb ?row \<le> points ?row \<and> points ?row \<le> ub ?row" by simp
  with e show ?thesis by simp
qed

subsection \<open>One label for each player\<close>

text \<open>
  C9. In the table that \<open>index\<close> returns no player id stands twice, so two rows of one
  player are one row with one label: no player is both CLASIFICADO and ELIMINADO.
\<close>

theorem verdict_exclusive:
  assumes "index st = Inr out" and "r1 \<in> set (table out)" and "r2 \<in> set (table out)"
    and "row_id r1 = row_id r2"
  shows "distinct (map row_id (table out))
       \<and> row_status r1 = row_status r2
       \<and> \<not> (row_status r1 = Some CLASIFICADO \<and> row_status r2 = Some ELIMINADO)"
proof -
  from index_Inr [OF assms(1)] obtain pp
    where p: "index_per_player st = Inr pp" and t: "table out = ranked_table pp"
    by blast
  have d: "distinct (map row_id (table out))"
    using ranked_table_distinct [OF index_per_player_keys(1) [OF p]] t by simp
  then have "inj_on row_id (set (table out))" by (simp add: distinct_map)
  with assms(2-4) have "r1 = r2" by (auto dest: inj_onD)
  with d show ?thesis by simp
qed

theorem verdict_exclusive_witness:
  "\<exists>out r1 r2. index st_finished = Inr out \<and> r1 \<in> set (table out) \<and> r2 \<in> set (table out)
     \<and> row_id r1 = 4 \<and> row_id r2 = 4 \<and> row_status r1 = Some ELIMINADO
     \<and> row_status r2 = Some ELIMINADO \<and> map row_id (table out) = [1, 2, 5, 3, 4]"
proof -
  let ?r = "\<lparr>name = ''Borux'', points = 0, wins = 0, seconds = 0, thirds = 0,
            saves = 0, row_id = 4, row_status = Some ELIMINADO, pos = 5\<rparr>"
  let ?out = "\<lparr>table =
        [\<lparr>name = ''Negro'', points = 6, wins = 2, seconds = 0, thirds = 0,
            saves = 0, row_id = 1, row_status = Some CLASIFICADO, pos = 1\<rparr>,
         \<lparr>name = ''Gueta'', points = 5, wins = 0, seconds = 2, thirds = 0,
            saves = 1, row_id = 2, row_status = Some CLASIFICADO, pos = 2\<rparr>,
         \<lparr>name = ''Mauro'', points = 1, wins = 0, seconds = 0, thirds = 1,
            saves = 0, row_id = 5, row_status = Some CLASIFICADO, pos = 3\<rparr>,
         \<lparr>name = ''Teran'', points = 1, wins = 0, seconds = 0, thirds = 1,
            saves = 0, row_id = 3, row_status = Some CLASIFICADO, pos = 3\<rparr>,
         ?r],
        participation =
          [\<lparr>part_name = ''Borux'', part_played = 1, part_remaining = 0,
              part_rests = 1, part_planned_to_play = 1\<rparr>,
           \<lparr>part_name = ''Gueta'', part_played = 2, part_remaining = 0,
              part_rests = 0, part_planned_to_play = 2\<rparr>,
           \<lparr>part_name = ''Mauro'', part_played = 1, part_remaining = 0,
              part_rests = 1, part_planned_to_play = 1\<rparr>,
           \<lparr>part_name = ''Negro'', part_played = 2, part_remaining = 0,
              part_rests = 0, part_planned_to_play = 2\<rparr>,
           \<lparr>part_name = ''Teran'', part_played = 2, part_remaining = 0,
              part_rests = 0, part_planned_to_play = 2\<rparr>],
        total_rounds = 2\<rparr>"
  have e: "index st_finished = Inr ?out" by code_simp
  have m: "?r \<in> set (table ?out)" by simp
  from verdict_exclusive [OF e m m] have "row_status ?r = row_status ?r" by simp
  with e m show ?thesis by (intro exI [of _ ?out] exI [of _ ?r]) simp
qed

subsection \<open>The save bonus\<close>

text \<open>
  C10. When every stored result is of an active player the accumulation returns; a player
  who is not active has no totals, so receives nothing; the saves of an active player
  \<open>k\<close> count the tables whose save is \<open>k\<close>, the points are these saves plus the scores
  of the player's own results; and a table whose save is a player who is not active
  changes no totals through its save and is processed as the same table with no save.
\<close>

theorem save_bonus_only_active:
  assumes "results_active st"
  shows "\<exists>a. accumulate st = Inr a
           \<and> (\<forall>k. k \<notin> active_ids st \<longrightarrow> totals a k = None)
           \<and> (\<forall>k \<in> active_ids st. \<exists>t. totals a k = Some t
                 \<and> saves t = sum_list (map (\<lambda>g. save_bonus g k) (games st))
                 \<and> points t = sum_list (map (\<lambda>g. save_bonus g k + score_in g k) (games st)))
           \<and> (\<forall>(g :: game) s (b :: acc). save_player_id g = Some s \<and> s \<notin> active_ids st
                         \<and> dom (totals b) = active_ids st \<longrightarrow>
                 apply_save g (totals b) = totals b
                 \<and> game_step g b = game_step (g\<lparr>save_player_id := None\<rparr>) b)"
proof -
  from accumulate_success [OF assms] obtain a where a: "accumulate st = Inr a" by blast
  have 1: "\<forall>k. k \<notin> active_ids st \<longrightarrow> totals a k = None"
    using accumulate_Inr(1) [OF a] by auto
  have 2: "\<forall>k \<in> active_ids st. \<exists>t. totals a k = Some t
                 \<and> saves t = sum_list (map (\<lambda>g. save_bonus g k) (games st))
                 \<and> points t = sum_list (map (\<lambda>g. save_bonus g k + score_in g k) (games st))"
    using accumulate_totals [OF a] by blast
  have 3: "\<forall>(g :: game) s (b :: acc). save_player_id g = Some s \<and> s \<notin> active_ids st
                         \<and> dom (totals b) = active_ids st \<longrightarrow>
                 apply_save g (totals b) = totals b
                 \<and> game_step g b = game_step (g\<lparr>save_player_id := None\<rparr>) b"
  proof (intro allI impI)
    fix g :: game and s and b :: acc
    assume h: "save_player_id g = Some s \<and> s \<notin> active_ids st \<and> dom (totals b) = active_ids st"
    then have n: "s \<notin> dom (totals b)" by simp
    have "apply_save g (totals b) = totals b"
      using h n by (auto simp: apply_save_def split: option.splits)
    moreover have "game_step g b = game_step (g\<lparr>save_player_id := None\<rparr>) b"
      using game_step_inactive_save [of g s b] h n by simp
    ultimately show "apply_save g (totals b) = totals b
                 \<and> game_step g b = game_step (g\<lparr>save_player_id := None\<rparr>) b"
      by simp
  qed
  from a 1 2 3 show ?thesis by blast
qed

theorem save_bonus_only_active_witness:
  "results_active st_finished
   \<and> 6 \<notin> active_ids st_finished \<and> 2 \<in> active_ids st_finished
   \<and> map save_player_id (games st_finished) = [Some 2, Some 6]
   \<and> (\<exists>a t. accumulate st_finished = Inr a \<and> totals a 6 = None
          \<and> totals a 2 = Some t \<and> saves t = 1 \<and> points t = 5)"
proof -
  have h: "results_active st_finished" by code_simp
  have i: "6 \<notin> active_ids st_finished \<and> 2 \<in> active_ids st_finished" by code_simp
  have g: "map save_player_id (games st_finished) = [Some 2, Some 6]" by code_simp
  have c: "sum_list (map (\<lambda>g. save_bonus g 2) (games st_finished)) = 1
         \<and> sum_list (map (\<lambda>g. save_bonus g 2 + score_in g 2) (games st_finished)) = 5"
    by code_simp
  from save_bonus_only_active [OF h] obtain a
    where a: "accumulate st_finished = Inr a"
      and n: "\<forall>k. k \<notin> active_ids st_finished \<longrightarrow> totals a k = None"
      and s: "\<forall>k \<in> active_ids st_finished. \<exists>t. totals a k = Some t
                 \<and> saves t = sum_list (map (\<lambda>g. save_bonus g k) (games st_finished))
                 \<and> points t = sum_list (map (\<lambda>g. save_bonus g k + score_in g k) (games st_finished))"
    by blast
  from n i have "totals a 6 = None" by blast
  moreover from s i have "\<exists>t. totals a 2 = Some t
                 \<and> saves t = sum_list (map (\<lambda>g. save_bonus g 2) (games st_finished))
                 \<and> points t = sum_list (map (\<lambda>g. save_bonus g 2 + score_in g 2) (games st_finished))"
    by blast
  then obtain t where "totals a 2 = Some t \<and> saves t = 1 \<and> points t = 5"
    using c by auto
  ultimately show ?thesis using h i g a by blast
qed

end
